theory Spec2Isabelle
  imports Complex_Main "HOL-Library.Log_Nat" "HOL-Library.Sublist"
begin

section \<open>JavaScript numbers\<close>

text \<open>
  Coordinates, durations and time stamps are JavaScript numbers: IEEE 754 binary64 values.
  A number is modelled as a rational, as the negative zero or as one of the three special
  values; \<open>Num 0\<close> is the positive zero. Every arithmetic operation rounds its exact result
  to the nearest binary64 value, ties to the even significand, with gradual underflow and
  with overflow to an infinity.
\<close>

datatype jsnum = Num rat | NegZero | PosInf | NegInf | NaN

text \<open>Rounding to the nearest integer, ties to even.\<close>

definition rne :: "rat \<Rightarrow> int" where
  "rne q =
     (let f = \<lfloor>q\<rfloor>; r = q - of_int f
      in if r < 1 / 2 then f else if 1 / 2 < r then f + 1
         else if even f then f else f + 1)"

text \<open>The binary exponent of a positive rational: \<open>2 powi expo x \<le> x < 2 powi (expo x + 1)\<close>.\<close>

definition expo :: "rat \<Rightarrow> int" where
  "expo x =
     (if 1 \<le> x then bitlen \<lfloor>x\<rfloor> - 1
      else let k = bitlen \<lfloor>1 / x\<rfloor> - 1
           in if x = 2 powi (- k) then - k else - k - 1)"

text \<open>
  A significand of 53 bits; below \<open>2 powi (- 1022)\<close> the spacing stays that of the
  smallest normal numbers.
\<close>

definition round_pos :: "rat \<Rightarrow> rat" where
  "round_pos x =
     (let e = max (expo x) (- 1022); u = 2 powi (e - 52)
      in of_int (rne (x / u)) * u)"

definition round_rat :: "rat \<Rightarrow> rat" where
  "round_rat x = (if 0 \<le> x then round_pos x else - round_pos (- x))"

text \<open>
  A rounded value of magnitude \<open>2 powi 1024\<close> or more is an infinity; a negative value that
  rounds to zero is the negative zero.
\<close>

definition to_double :: "rat \<Rightarrow> jsnum" where
  "to_double x =
     (let y = round_rat x
      in if 1024 \<le> expo \<bar>y\<bar> then (if 0 < y then PosInf else NegInf)
         else if y = 0 \<and> x < 0 then NegZero else Num y)"

fun js_neg :: "jsnum \<Rightarrow> jsnum" where
  "js_neg (Num a) = (if a = 0 then NegZero else Num (- a))"
| "js_neg NegZero = Num 0"
| "js_neg PosInf = NegInf"
| "js_neg NegInf = PosInf"
| "js_neg NaN = NaN"

text \<open>
  The sum of two zeros is the negative zero only when both are; the sum of a zero and a
  number is the number; an exact sum 0 of two numbers is the positive zero.
\<close>

fun js_add :: "jsnum \<Rightarrow> jsnum \<Rightarrow> jsnum" where
  "js_add (Num a) (Num b) = to_double (a + b)"
| "js_add (Num a) NegZero = to_double a"
| "js_add NegZero (Num b) = to_double b"
| "js_add NegZero NegZero = NegZero"
| "js_add NaN b = NaN"
| "js_add a NaN = NaN"
| "js_add PosInf NegInf = NaN"
| "js_add NegInf PosInf = NaN"
| "js_add PosInf b = PosInf"
| "js_add NegInf b = NegInf"
| "js_add a b = b"

definition js_sub :: "jsnum \<Rightarrow> jsnum \<Rightarrow> jsnum" where
  "js_sub a b = js_add a (js_neg b)"

fun js_sign :: "jsnum \<Rightarrow> int" where
  "js_sign (Num a) = (if 0 < a then 1 else if a < 0 then - 1 else 0)"
| "js_sign NegZero = 0"
| "js_sign PosInf = 1"
| "js_sign NegInf = - 1"
| "js_sign NaN = 0"

text \<open>
  The sign of a product or quotient is the product of the signs of the operands, also when
  the result is a zero. A zero times an infinity is NaN.
\<close>

fun js_mul :: "jsnum \<Rightarrow> jsnum \<Rightarrow> jsnum" where
  "js_mul (Num a) (Num b) =
     (if a * b = 0 then (if a < 0 \<or> b < 0 then NegZero else Num 0) else to_double (a * b))"
| "js_mul (Num a) NegZero = (if a < 0 then Num 0 else NegZero)"
| "js_mul NegZero (Num b) = (if b < 0 then Num 0 else NegZero)"
| "js_mul NegZero NegZero = Num 0"
| "js_mul NaN b = NaN"
| "js_mul a NaN = NaN"
| "js_mul a b =
     (let s = js_sign a * js_sign b
      in if s = 0 then NaN else if 0 < s then PosInf else NegInf)"

text \<open>
  A number other than a zero divided by a zero is an infinity, a zero divided by a zero is
  NaN; a finite number divided by an infinity is a zero.
\<close>

fun js_div :: "jsnum \<Rightarrow> jsnum \<Rightarrow> jsnum" where
  "js_div (Num a) (Num b) =
     (if b = 0 then (if 0 < a then PosInf else if a < 0 then NegInf else NaN)
      else if a = 0 then (if b < 0 then NegZero else Num 0)
      else to_double (a / b))"
| "js_div (Num a) NegZero = (if 0 < a then NegInf else if a < 0 then PosInf else NaN)"
| "js_div NegZero (Num b) = (if b = 0 then NaN else if b < 0 then Num 0 else NegZero)"
| "js_div NegZero NegZero = NaN"
| "js_div NaN b = NaN"
| "js_div a NaN = NaN"
| "js_div (Num a) PosInf = (if a < 0 then NegZero else Num 0)"
| "js_div (Num a) NegInf = (if a < 0 then Num 0 else NegZero)"
| "js_div NegZero PosInf = NegZero"
| "js_div NegZero NegInf = Num 0"
| "js_div PosInf (Num b) = (if 0 \<le> b then PosInf else NegInf)"
| "js_div PosInf NegZero = NegInf"
| "js_div NegInf (Num b) = (if 0 \<le> b then NegInf else PosInf)"
| "js_div NegInf NegZero = PosInf"
| "js_div a b = NaN"

text \<open>
  The comparison \<open>a < b\<close>: false as soon as one side is NaN; the two zeros are equal. The
  comparison \<open>a <= b\<close> likewise.
\<close>

fun js_lt :: "jsnum \<Rightarrow> jsnum \<Rightarrow> bool" where
  "js_lt (Num a) (Num b) = (a < b)"
| "js_lt (Num a) NegZero = (a < 0)"
| "js_lt NegZero (Num b) = (0 < b)"
| "js_lt NegZero NegZero = False"
| "js_lt NaN b = False"
| "js_lt a NaN = False"
| "js_lt a NegInf = False"
| "js_lt PosInf b = False"
| "js_lt a b = True"

definition js_le :: "jsnum \<Rightarrow> jsnum \<Rightarrow> bool" where
  "js_le a b \<longleftrightarrow> a \<noteq> NaN \<and> b \<noteq> NaN \<and> \<not> js_lt b a"

text \<open>
  \<open>Math.min\<close> of two numbers: NaN as soon as one of them is NaN; the negative zero is the
  smaller of the two zeros.
\<close>

fun js_min :: "jsnum \<Rightarrow> jsnum \<Rightarrow> jsnum" where
  "js_min NaN b = NaN"
| "js_min a NaN = NaN"
| "js_min (Num a) NegZero = (if a < 0 then Num a else NegZero)"
| "js_min NegZero (Num b) = (if b < 0 then Num b else NegZero)"
| "js_min a b = (if js_lt b a then b else a)"

section \<open>Points, frames and the host's frame scheduler\<close>

text \<open>A point is an object with the two fields \<open>x\<close> and \<open>y\<close>.\<close>

record point =
  px :: jsnum
  py :: jsnum

text \<open>
  The host delivers frames. A frame carries the time stamp that \<open>requestAnimationFrame\<close>
  hands to the callback it runs, and the value that \<open>performance.now()\<close> returns while that
  callback runs.
\<close>

record frame =
  timestamp :: jsnum
  performance_now :: jsnum

text \<open>
  What a frame callback of the engine does at its end: it registers itself again with
  \<open>requestAnimationFrame\<close> (the closure with its captured variables is kept), or it hands
  over to the completion callback it was given.
\<close>

datatype 'a outcome = Again 'a | Finished

text \<open>
  The animation as the host sees it: one callback waiting for the next frame, or nothing. The
  third value stands for a synchronous recursion that never returns (see \<open>executeAnimation\<close>).
\<close>

datatype 'a task = Pending 'a | Idle | Overflow

text \<open>
  The host runs the waiting callback once per frame, on the frames \<open>sched 0\<close>, \<open>sched 1\<close>, ...
  The callbacks of the caller are observers: a call of one of them is recorded in the log, in
  the order of the calls, and changes nothing else. \<open>host step init sched n\<close> is the log and
  the state after \<open>n\<close> frames.
\<close>

primrec host :: "('s \<Rightarrow> frame \<Rightarrow> 'e list \<times> 's) \<Rightarrow> 'e list \<times> 's \<Rightarrow> (nat \<Rightarrow> frame) \<Rightarrow> nat \<Rightarrow> 'e list \<times> 's" where
  "host step init sched 0 = init"
| "host step init sched (Suc n) =
     (case host step init sched n of
        (tr, s) \<Rightarrow> (case step s (sched n) of (calls, s') \<Rightarrow> (tr @ calls, s')))"

section \<open>The interpolation and the point-to-point mover\<close>

definition calculateLinearInterpolation :: "jsnum \<Rightarrow> jsnum \<Rightarrow> jsnum \<Rightarrow> jsnum" where
  "calculateLinearInterpolation start end progress =
     js_add start (js_mul (js_sub end start) progress)"

text \<open>The variables that the closure \<open>animate\<close> of \<open>moveBetweenPoints\<close> captures.\<close>

record mover =
  startPoint :: point
  endPoint :: point
  duration :: jsnum
  startTime :: jsnum
  stepIndex :: nat

text \<open>
  \<open>moveBetweenPoints\<close> reads the clock, sets the step index to 0 and registers \<open>animate\<close>
  for the next frame; it calls nothing back itself. \<open>now\<close> is what \<open>performance.now()\<close>
  returns at the call.
\<close>

definition moveBetweenPoints :: "point \<Rightarrow> point \<Rightarrow> jsnum \<Rightarrow> jsnum \<Rightarrow> mover" where
  "moveBetweenPoints startPoint' endPoint' duration' now =
     \<lparr>startPoint = startPoint', endPoint = endPoint', duration = duration',
      startTime = now, stepIndex = 0\<rparr>"

text \<open>
  One run of \<open>animate\<close>. The step callback is optional (\<open>None\<close> is a null callback); the step
  index moves on only when the callback is called, since \<open>stepIndex++\<close> is its argument.
\<close>

definition animate :: "(jsnum \<Rightarrow> jsnum \<Rightarrow> nat \<Rightarrow> 'e list) option \<Rightarrow> mover \<Rightarrow> jsnum \<Rightarrow> 'e list \<times> mover outcome" where
  "animate stepCallback m ts =
     (let elapsed = js_sub ts (startTime m);
          progress = js_min (js_div elapsed (duration m)) (Num 1);
          x = calculateLinearInterpolation (px (startPoint m)) (px (endPoint m)) progress;
          y = calculateLinearInterpolation (py (startPoint m)) (py (endPoint m)) progress;
          calls = (case stepCallback of Some cb \<Rightarrow> cb x y (stepIndex m) | None \<Rightarrow> []);
          m' = (case stepCallback of Some cb \<Rightarrow> m\<lparr>stepIndex := stepIndex m + 1\<rparr> | None \<Rightarrow> m)
      in if js_lt progress (Num 1) then (calls, Again m') else (calls, Finished))"

text \<open>
  A move on its own under the host: when \<open>animate\<close> is through, the completion callback of
  the caller is called, if there is one, and nothing is registered any more.
\<close>

fun mover_frame :: "(jsnum \<Rightarrow> jsnum \<Rightarrow> nat \<Rightarrow> 'e list) option \<Rightarrow> 'e list option \<Rightarrow> mover task \<Rightarrow> frame \<Rightarrow> 'e list \<times> mover task" where
  "mover_frame stepCallback completeCallback (Pending m) f =
     (case animate stepCallback m (timestamp f) of
        (calls, Again m') \<Rightarrow> (calls, Pending m')
      | (calls, Finished) \<Rightarrow>
          (calls @ (case completeCallback of Some cb \<Rightarrow> cb | None \<Rightarrow> []), Idle))"
| "mover_frame stepCallback completeCallback t f = ([], t)"

text \<open>The calls that a caller of \<open>moveBetweenPoints\<close> observes.\<close>

datatype move_call = Step jsnum jsnum nat | Complete

definition move_run :: "point \<Rightarrow> point \<Rightarrow> jsnum \<Rightarrow> jsnum \<Rightarrow> (nat \<Rightarrow> frame) \<Rightarrow> nat \<Rightarrow> move_call list \<times> mover task" where
  "move_run p q d now sched n =
     host (mover_frame (Some (\<lambda>x y i. [Step x y i])) (Some [Complete]))
       ([], Pending (moveBetweenPoints p q d now)) sched n"

section \<open>Arrays and the multi-segment walker\<close>

text \<open>
  Arrays of points are objects: a variable holds a reference, and two variables may hold the
  same one. The store lists the arrays that exist; a reference is an index into it, and a new
  array is put at the end. The points themselves are never written by the engine and are
  kept as values.
\<close>

type_synonym addr = nat
type_synonym heap = "point list list"

text \<open>The variables that the closure \<open>moveNextSegment\<close> of \<open>moveAlongPath\<close> captures.\<close>

record walker =
  walk_points :: addr
  segmentDuration :: jsnum
  totalSegments :: nat
  currentSegment :: nat

text \<open>
  \<open>moveNextSegment\<close>: past the last segment it hands over to the completion callback of
  \<open>moveAlongPath\<close>, otherwise it starts the move over the current segment. The two indices
  are inside the array, since \<open>currentSegment < totalSegments = length - 1\<close>.
\<close>

definition moveNextSegment :: "heap \<Rightarrow> jsnum \<Rightarrow> walker \<Rightarrow> (walker \<times> mover) outcome" where
  "moveNextSegment h now w =
     (if totalSegments w \<le> currentSegment w then Finished
      else Again (w, moveBetweenPoints
                       ((h ! walk_points w) ! currentSegment w)
                       ((h ! walk_points w) ! (currentSegment w + 1))
                       (segmentDuration w) now))"

text \<open>
  \<open>moveAlongPath\<close>; \<open>points\<close> is \<open>None\<close> for a null argument. \<open>Finished\<close> is the call of the
  completion callback, which happens at once on fewer than two points.
\<close>

definition moveAlongPath :: "heap \<Rightarrow> addr option \<Rightarrow> jsnum \<Rightarrow> jsnum \<Rightarrow> (walker \<times> mover) outcome" where
  "moveAlongPath h points duration' now =
     (case points of
        None \<Rightarrow> Finished
      | Some a \<Rightarrow>
          if length (h ! a) < 2 then Finished
          else moveNextSegment h now
                 \<lparr>walk_points = a,
                  segmentDuration = js_div duration' (Num (of_nat (length (h ! a) - 1))),
                  totalSegments = length (h ! a) - 1,
                  currentSegment = 0\<rparr>)"

text \<open>
  One frame of the walk: \<open>animate\<close> of the current segment runs with the two callbacks that
  \<open>moveNextSegment\<close> gave it. The first passes the step on with the segment index; the
  second reports the segment, increments the index and calls \<open>moveNextSegment\<close>.
\<close>

definition segment_frame :: "(jsnum \<Rightarrow> jsnum \<Rightarrow> nat \<Rightarrow> nat \<Rightarrow> 'e list) option \<Rightarrow> (nat \<Rightarrow> 'e list) option \<Rightarrow> heap \<Rightarrow> walker \<times> mover \<Rightarrow> frame \<Rightarrow> 'e list \<times> (walker \<times> mover) outcome" where
  "segment_frame stepCallback segmentCompleteCallback h wm f =
     (case wm of (w, m) \<Rightarrow>
        (case animate
                (Some (\<lambda>x y i. case stepCallback of
                                   Some cb \<Rightarrow> cb x y i (currentSegment w) | None \<Rightarrow> []))
                m (timestamp f) of
           (calls, Again m') \<Rightarrow> (calls, Again (w, m'))
         | (calls, Finished) \<Rightarrow>
             (calls @ (case segmentCompleteCallback of
                         Some cb \<Rightarrow> cb (currentSegment w) | None \<Rightarrow> []),
              moveNextSegment h (performance_now f)
                (w\<lparr>currentSegment := currentSegment w + 1\<rparr>))))"

text \<open>A walk on its own under the host, with the completion callback of the caller.\<close>

definition walk_start :: "'e list option \<Rightarrow> heap \<Rightarrow> addr option \<Rightarrow> jsnum \<Rightarrow> jsnum \<Rightarrow> 'e list \<times> (walker \<times> mover) task" where
  "walk_start completeCallback h points duration' now =
     (case moveAlongPath h points duration' now of
        Again wm \<Rightarrow> ([], Pending wm)
      | Finished \<Rightarrow> ((case completeCallback of Some cb \<Rightarrow> cb | None \<Rightarrow> []), Idle))"

fun walk_frame :: "(jsnum \<Rightarrow> jsnum \<Rightarrow> nat \<Rightarrow> nat \<Rightarrow> 'e list) option \<Rightarrow> (nat \<Rightarrow> 'e list) option \<Rightarrow> 'e list option \<Rightarrow> heap \<Rightarrow> (walker \<times> mover) task \<Rightarrow> frame \<Rightarrow> 'e list \<times> (walker \<times> mover) task" where
  "walk_frame stepCallback segmentCompleteCallback completeCallback h (Pending wm) f =
     (case segment_frame stepCallback segmentCompleteCallback h wm f of
        (calls, Again wm') \<Rightarrow> (calls, Pending wm')
      | (calls, Finished) \<Rightarrow>
          (calls @ (case completeCallback of Some cb \<Rightarrow> cb | None \<Rightarrow> []), Idle))"
| "walk_frame stepCallback segmentCompleteCallback completeCallback h t f = ([], t)"

text \<open>The calls that a caller of \<open>moveAlongPath\<close> observes.\<close>

datatype walk_call = PathStep jsnum jsnum nat nat | SegmentComplete nat | PathComplete

definition walk_run :: "heap \<Rightarrow> addr option \<Rightarrow> jsnum \<Rightarrow> jsnum \<Rightarrow> (nat \<Rightarrow> frame) \<Rightarrow> nat \<Rightarrow> walk_call list \<times> (walker \<times> mover) task" where
  "walk_run h points d now sched n =
     host (walk_frame (Some (\<lambda>x y i s. [PathStep x y i s])) (Some (\<lambda>s. [SegmentComplete s]))
             (Some [PathComplete]) h)
       (walk_start (Some [PathComplete]) h points d now) sched n"

section \<open>The directional, looping player\<close>

text \<open>
  The direction is one of the two strings \<open>'forward'\<close> and \<open>'backward'\<close>. A \<open>Path\<close> object
  holds a reference to its array of points, which its constructor has checked to be an array.
\<close>

datatype direction = Forward | Backward

record Path =
  points :: addr

text \<open>The three \<open>TypeError\<close>s that \<open>followPath\<close> throws, by the check that throws them.\<close>

datatype followPath_error = NotAPath | TooFewPoints | NoUpdateCallback

text \<open>
  The variables of \<open>followPath\<close> that its closures write. Its parameters \<open>duration\<close>,
  \<open>loop\<close>, \<open>yoyo\<close> and the two callbacks are only read and are passed along.
\<close>

record follower =
  loopCount :: nat
  pathPoints :: addr
  currentDirection :: direction

type_synonym follow_state = "heap \<times> (follower \<times> walker \<times> mover) task"

text \<open>
  \<open>executeAnimation\<close> calls \<open>moveAlongPath\<close> on the working array. \<open>moveAlongPath\<close> calls the
  completion at once only on fewer than two points, which \<open>followPath\<close> has excluded before;
  there the closure below would run at once, and with \<open>loop\<close> it would call
  \<open>executeAnimation\<close> again without ever returning.
\<close>

definition executeAnimation :: "jsnum \<Rightarrow> (nat \<Rightarrow> 'e list) option \<Rightarrow> bool \<Rightarrow> heap \<Rightarrow> jsnum \<Rightarrow> follower \<Rightarrow> 'e list \<times> follow_state" where
  "executeAnimation duration' completeCallback loop h now fo =
     (case moveAlongPath h (Some (pathPoints fo)) duration' now of
        Again wm \<Rightarrow> ([], h, Pending (fo, wm))
      | Finished \<Rightarrow>
          if loop then ([], h, Overflow)
          else ((case completeCallback of Some cb \<Rightarrow> cb (loopCount fo + 1) | None \<Rightarrow> []),
                h, Idle))"

text \<open>
  The closure that \<open>executeAnimation\<close> passes to \<open>moveAlongPath\<close> as completion callback.
  \<open>pathPoints.reverse()\<close> reverses the working array in place.
\<close>

definition traversal_complete :: "jsnum \<Rightarrow> (nat \<Rightarrow> 'e list) option \<Rightarrow> bool \<Rightarrow> bool \<Rightarrow> heap \<Rightarrow> jsnum \<Rightarrow> follower \<Rightarrow> 'e list \<times> follow_state" where
  "traversal_complete duration' completeCallback loop yoyo h now fo =
     (let fo1 = fo\<lparr>loopCount := loopCount fo + 1\<rparr>
      in if loop then
           (if yoyo then
              executeAnimation duration' completeCallback loop
                (h[pathPoints fo1 := rev (h ! pathPoints fo1)]) now
                (fo1\<lparr>currentDirection :=
                       (if currentDirection fo1 = Forward then Backward else Forward)\<rparr>)
            else executeAnimation duration' completeCallback loop h now fo1)
         else ((case completeCallback of Some cb \<Rightarrow> cb (loopCount fo1) | None \<Rightarrow> []),
               h, Idle))"

text \<open>
  One frame of the player: a frame of the walk, whose step callback passes the step on to the
  update callback with the loop count and the direction of the moment, whose
  segment-completion callback is null, and whose completion callback is the closure above.
\<close>

fun follow_frame :: "(jsnum \<Rightarrow> jsnum \<Rightarrow> nat \<Rightarrow> nat \<Rightarrow> nat \<Rightarrow> direction \<Rightarrow> 'e list) \<Rightarrow> jsnum \<Rightarrow> (nat \<Rightarrow> 'e list) option \<Rightarrow> bool \<Rightarrow> bool \<Rightarrow> follow_state \<Rightarrow> frame \<Rightarrow> 'e list \<times> follow_state" where
  "follow_frame updateCallback duration' completeCallback loop yoyo (h, Pending (fo, wm)) f =
     (case segment_frame
             (Some (\<lambda>x y i s. updateCallback x y i s (loopCount fo) (currentDirection fo)))
             None h wm f of
        (calls, Again wm') \<Rightarrow> (calls, h, Pending (fo, wm'))
      | (calls, Finished) \<Rightarrow>
          (case traversal_complete duration' completeCallback loop yoyo h (performance_now f) fo of
             (calls', st) \<Rightarrow> (calls @ calls', st)))"
| "follow_frame updateCallback duration' completeCallback loop yoyo (h, t) f = ([], h, t)"

text \<open>
  \<open>followPath\<close>; \<open>path\<close> is \<open>None\<close> for an argument that is not an instance of \<open>Path\<close> (null
  among them), \<open>updateCallback\<close> is \<open>None\<close> for a missing one. The spread \<open>[...points]\<close> makes a
  new array, which \<open>reverse()\<close> then reverses in place for the backward direction. The result
  is the exception thrown, or the calls made before \<open>followPath\<close> returns with the state it
  leaves behind.
\<close>

definition followPath :: "heap \<Rightarrow> Path option \<Rightarrow> (jsnum \<Rightarrow> jsnum \<Rightarrow> nat \<Rightarrow> nat \<Rightarrow> nat \<Rightarrow> direction \<Rightarrow> 'e list) option \<Rightarrow> direction \<Rightarrow> jsnum \<Rightarrow> (nat \<Rightarrow> 'e list) option \<Rightarrow> bool \<Rightarrow> bool \<Rightarrow> jsnum \<Rightarrow> followPath_error + 'e list \<times> follow_state" where
  "followPath h path updateCallback direction' duration' completeCallback loop yoyo now =
     (case path of
        None \<Rightarrow> Inl NotAPath
      | Some p \<Rightarrow>
          if length (h ! points p) < 2 then Inl TooFewPoints
          else (case updateCallback of
                  None \<Rightarrow> Inl NoUpdateCallback
                | Some cb \<Rightarrow>
                    Inr (executeAnimation duration' completeCallback loop
                           (h @ [if direction' = Forward then h ! points p
                                 else rev (h ! points p)])
                           now
                           \<lparr>loopCount = 0, pathPoints = length h,
                            currentDirection = direction'\<rparr>)))"

text \<open>The calls that a caller of \<open>followPath\<close> observes.\<close>

datatype follow_call = Update jsnum jsnum nat nat nat direction | FollowComplete nat

text \<open>
  The player under the host, with an update callback when \<open>has_update\<close> is set and with a
  completion callback when \<open>has_complete\<close> is set.
\<close>

definition follow_run :: "heap \<Rightarrow> Path option \<Rightarrow> bool \<Rightarrow> direction \<Rightarrow> jsnum \<Rightarrow> bool \<Rightarrow> bool \<Rightarrow> bool \<Rightarrow> jsnum \<Rightarrow> (nat \<Rightarrow> frame) \<Rightarrow> nat \<Rightarrow> followPath_error + follow_call list \<times> follow_state" where
  "follow_run h path has_update direction' d has_complete loop yoyo now sched n =
     (case followPath h path
             (if has_update then Some (\<lambda>x y i s c dir. [Update x y i s c dir]) else None)
             direction' d
             (if has_complete then Some (\<lambda>c. [FollowComplete c]) else None) loop yoyo now of
        Inl e \<Rightarrow> Inl e
      | Inr init \<Rightarrow>
          Inr (host (follow_frame (\<lambda>x y i s c dir. [Update x y i s c dir]) d
                       (if has_complete then Some (\<lambda>c. [FollowComplete c]) else None) loop yoyo)
                 init sched n))"

section \<open>Links between elements\<close>

text \<open>
  Of an element, \<open>createLink\<close> reads the position and the size. Of the link it returns, the
  model keeps the position, the visibility, the path, the line style and the two arrows; the
  identifier, which is drawn at random, is left out. The line style is a string and the
  arrows are booleans, so the type checks of the \<open>Link\<close> constructor pass, as do those of
  the \<open>Path\<close> and \<open>Element\<close> constructors, whose arguments are an array of points with
  numbers as coordinates and two numbers.
\<close>

record element =
  elem_x :: jsnum
  elem_y :: jsnum
  width :: jsnum
  height :: jsnum

record Link =
  link_x :: jsnum
  link_y :: jsnum
  visible :: bool
  path :: Path
  borderStyle :: string
  startArrow :: bool
  endArrow :: bool

definition getStartPoint :: "heap \<Rightarrow> Path \<Rightarrow> point" where
  "getStartPoint h p = (h ! points p) ! 0"

definition new_Link :: "heap \<Rightarrow> Path \<Rightarrow> string \<Rightarrow> bool \<Rightarrow> bool \<Rightarrow> Link" where
  "new_Link h path' lineStyle startArrow' endArrow' =
     \<lparr>link_x = px (getStartPoint h path'), link_y = py (getStartPoint h path'),
      visible = True, path = path', borderStyle = lineStyle,
      startArrow = startArrow', endArrow = endArrow'\<rparr>"

text \<open>\<open>createLink\<close> makes the array of the two centres; the result is the new store and the link.\<close>

definition createLink :: "heap \<Rightarrow> element \<Rightarrow> element \<Rightarrow> string \<Rightarrow> bool \<Rightarrow> bool \<Rightarrow> heap \<times> Link" where
  "createLink h element1 element2 lineStyle startArrow' endArrow' =
     (let h' = h @ [[\<lparr>px = js_add (elem_x element1) (js_div (width element1) (Num 2)),
                       py = js_add (elem_y element1) (js_div (height element1) (Num 2))\<rparr>,
                      \<lparr>px = js_add (elem_x element2) (js_div (width element2) (Num 2)),
                       py = js_add (elem_y element2) (js_div (height element2) (Num 2))\<rparr>]]
      in (h', new_Link h' \<lparr>points = length h\<rparr> lineStyle startArrow' endArrow'))"

section \<open>Auxiliary notions for the statements\<close>

text \<open>A host that delivers a frame every \<open>dt\<close> time units, the clock read at the time stamp.\<close>

definition ticks :: "rat \<Rightarrow> nat \<Rightarrow> frame" where
  "ticks dt n =
     \<lparr>timestamp = Num (of_nat (n + 1) * dt), performance_now = Num (of_nat (n + 1) * dt)\<rparr>"

text \<open>The progress that \<open>animate\<close> computes from a time stamp, the start time and the duration.\<close>

definition progress_at :: "jsnum \<Rightarrow> jsnum \<Rightarrow> jsnum \<Rightarrow> jsnum" where
  "progress_at ts t0 d = js_min (js_div (js_sub ts t0) d) (Num 1)"

text \<open>The call of the step callback that \<open>animate\<close> makes at progress \<open>pr\<close> with step index \<open>i\<close>.\<close>

definition move_step :: "point \<Rightarrow> point \<Rightarrow> jsnum \<Rightarrow> nat \<Rightarrow> move_call" where
  "move_step p q pr i =
     Step (calculateLinearInterpolation (px p) (px q) pr)
          (calculateLinearInterpolation (py p) (py q) pr) i"

text \<open>
  A host whose frames carry finite time stamps and clock readings, and whose time stamps
  grow beyond every bound.
\<close>

definition steady :: "(nat \<Rightarrow> frame) \<Rightarrow> bool" where
  "steady sched \<longleftrightarrow>
     (\<forall>i. \<exists>ts now. timestamp (sched i) = Num ts \<and> performance_now (sched i) = Num now) \<and>
     (\<forall>T i. \<exists>j\<ge>i. \<exists>ts. timestamp (sched j) = Num ts \<and> T \<le> ts)"

text \<open>
  Projections of the log of a walk: whether a call is a step; the step indices of the steps of
  segment \<open>s\<close>, in the order of the calls; the segment indices of the steps, in that order.
\<close>

fun is_step :: "walk_call \<Rightarrow> bool" where
  "is_step (PathStep x y i s) = True"
| "is_step c = False"

fun step_index_of :: "nat \<Rightarrow> walk_call \<Rightarrow> nat list" where
  "step_index_of s (PathStep x y i s') = (if s' = s then [i] else [])"
| "step_index_of s c = []"

definition step_indices :: "nat \<Rightarrow> walk_call list \<Rightarrow> nat list" where
  "step_indices s tr = concat (map (step_index_of s) tr)"

fun step_segment_of :: "walk_call \<Rightarrow> nat list" where
  "step_segment_of (PathStep x y i s) = [s]"
| "step_segment_of c = []"

definition step_segments :: "walk_call list \<Rightarrow> nat list" where
  "step_segments tr = concat (map step_segment_of tr)"

text \<open>Every step of a segment \<open>s + 1\<close> comes after the completion call of segment \<open>s\<close>.\<close>

definition after_completion :: "walk_call list \<Rightarrow> bool" where
  "after_completion tr \<longleftrightarrow>
     (\<forall>pre post x y k s. tr = pre @ PathStep x y k (Suc s) # post \<longrightarrow>
        SegmentComplete s \<in> set pre)"

text \<open>
  What the log of a walk over \<open>N\<close> segments and its state have in common at every moment.
\<close>

definition walk_inv :: "nat \<Rightarrow> walk_call list \<Rightarrow> (walker \<times> mover) task \<Rightarrow> bool" where
  "walk_inv N tr st \<longleftrightarrow>
     sorted (step_segments tr) \<and> after_completion tr \<and>
     (case st of
        Pending (w, m) \<Rightarrow>
          totalSegments w = N \<and> currentSegment w < N \<and>
          filter (\<lambda>c. \<not> is_step c) tr = map SegmentComplete [0..<currentSegment w] \<and>
          (\<forall>s\<in>set (step_segments tr). s \<le> currentSegment w) \<and>
          step_indices (currentSegment w) tr = [0..<stepIndex m] \<and>
          (\<forall>s<currentSegment w. \<exists>k>0. step_indices s tr = [0..<k])
      | Idle \<Rightarrow>
          filter (\<lambda>c. \<not> is_step c) tr = map SegmentComplete [0..<N] @ [PathComplete] \<and>
          (\<forall>s\<in>set (step_segments tr). s < N) \<and>
          (\<forall>s<N. \<exists>k>0. step_indices s tr = [0..<k])
      | Overflow \<Rightarrow> False)"

text \<open>
  The state of a player that was started on the store \<open>h0\<close>: one array has been added, the
  arrays of \<open>h0\<close> are as they were, and the working array of the player is the added one.
\<close>

definition private_copy :: "heap \<Rightarrow> follow_state \<Rightarrow> bool" where
  "private_copy h0 st \<longleftrightarrow>
     length (fst st) = Suc (length h0) \<and> (\<forall>a < length h0. fst st ! a = h0 ! a) \<and>
     (\<forall>fo wm. snd st = Pending (fo, wm) \<longrightarrow> pathPoints fo = length h0)"

text \<open>
  The calls of a player without \<open>loop\<close> that belong to a call of the walk over its working
  array: a step is passed on to the update callback with the loop count 0 and the direction;
  the completion of a segment is not passed on; the overall completion is passed on with the
  loop count 1 when a completion callback was given.
\<close>

fun follow_of :: "bool \<Rightarrow> direction \<Rightarrow> walk_call \<Rightarrow> follow_call list" where
  "follow_of has_complete dir (PathStep x y i s) = [Update x y i s 0 dir]"
| "follow_of has_complete dir (SegmentComplete s) = []"
| "follow_of has_complete dir PathComplete = (if has_complete then [FollowComplete 1] else [])"

text \<open>
  The step indices that the calls of the update callback report for segment \<open>s\<close>, in the
  order of the calls.
\<close>

fun update_index_of :: "nat \<Rightarrow> follow_call \<Rightarrow> nat list" where
  "update_index_of s (Update x y i s' c dir) = (if s' = s then [i] else [])"
| "update_index_of s (FollowComplete c) = []"

definition update_indices :: "nat \<Rightarrow> follow_call list \<Rightarrow> nat list" where
  "update_indices s tr = concat (map (update_index_of s) tr)"

text \<open>
  With \<open>loop\<close> and \<open>yoyo\<close>: the direction after \<open>k\<close> flips of the direction \<open>dir\<close>, and the
  working array after \<open>k\<close> reversals of the array \<open>W\<close>.
\<close>

definition turn :: "nat \<Rightarrow> direction \<Rightarrow> direction" where
  "turn k dir = (if even k then dir else if dir = Forward then Backward else Forward)"

definition lap :: "nat \<Rightarrow> point list \<Rightarrow> point list" where
  "lap k W = (if even k then W else rev W)"

text \<open>The loop counts that the calls of the update callback report, in the order of the calls.\<close>

fun update_count_of :: "follow_call \<Rightarrow> nat list" where
  "update_count_of (Update x y i s c dir) = [c]"
| "update_count_of (FollowComplete c) = []"

definition update_counts :: "follow_call list \<Rightarrow> nat list" where
  "update_counts tr = concat (map update_count_of tr)"

text \<open>
  What the log of a looping yoyo player and its state have in common at every moment; \<open>W0\<close>
  is the working array of the first traversal and \<open>dir\<close> the direction of the call.
\<close>

definition yoyo_inv :: "point list \<Rightarrow> direction \<Rightarrow> follow_call list \<Rightarrow> follow_state \<Rightarrow> bool" where
  "yoyo_inv W0 dir tr st \<longleftrightarrow>
     (case st of
        (h, Pending (fo, w, m)) \<Rightarrow>
          pathPoints fo < length h \<and> walk_points w = pathPoints fo \<and>
          h ! pathPoints fo = lap (loopCount fo) W0 \<and>
          currentDirection fo = turn (loopCount fo) dir \<and>
          totalSegments w = length W0 - 1 \<and> currentSegment w < totalSegments w \<and>
          startPoint m = (h ! pathPoints fo) ! currentSegment w \<and>
          endPoint m = (h ! pathPoints fo) ! Suc (currentSegment w) \<and>
          sorted (update_counts tr) \<and>
          (\<forall>c\<in>set tr. \<exists>x y i s k. c = Update x y i s k (turn k dir) \<and> k \<le> loopCount fo) \<and>
          (\<forall>k<loopCount fo. \<exists>x y i s. Update x y i s k (turn k dir) \<in> set tr)
      | (h, Idle) \<Rightarrow> False
      | (h, Overflow) \<Rightarrow> False)"

text \<open>The segment of the moment has the finite duration \<open>s\<close> and a finite start time.\<close>

definition timed :: "rat \<Rightarrow> follow_state \<Rightarrow> bool" where
  "timed s st \<longleftrightarrow>
     (case st of
        (h, Pending (fo, w, m)) \<Rightarrow>
          segmentDuration w = Num s \<and> duration m = Num s \<and> (\<exists>t. startTime m = Num t)
      | (h, Idle) \<Rightarrow> True
      | (h, Overflow) \<Rightarrow> True)"

section \<open>Rounding is monotone and idempotent\<close>

lemma rne_cases: "rne q = \<lfloor>q\<rfloor> \<or> rne q = \<lfloor>q\<rfloor> + 1"
  by (simp add: rne_def Let_def)

lemma rne_of_int [simp]: "rne (of_int n) = n"
  by (simp add: rne_def Let_def)

lemma rne_mono: 
  assumes "a \<le> b" shows "rne a \<le> rne b"
proof (cases "\<lfloor>a\<rfloor> = \<lfloor>b\<rfloor>")
  case True
  then show ?thesis using assms by (auto simp: rne_def Let_def)
next
  case False
  with assms have "\<lfloor>a\<rfloor> < \<lfloor>b\<rfloor>" using floor_mono[OF assms] by linarith
  moreover have "rne a \<le> \<lfloor>a\<rfloor> + 1" using rne_cases[of a] by linarith
  moreover have "\<lfloor>b\<rfloor> \<le> rne b" using rne_cases[of b] by linarith
  ultimately show ?thesis by linarith
qed

lemma expo_ge1:
  fixes x :: rat
  assumes "1 \<le> x"
  shows "2 powi (bitlen \<lfloor>x\<rfloor> - 1) \<le> x \<and> x < 2 powi (bitlen \<lfloor>x\<rfloor>)"
proof -
  let ?n = "\<lfloor>x\<rfloor>"
  from assms have n: "0 < ?n" by simp
  from bitlen_bounds[OF n] have lo: "2 ^ nat (bitlen ?n - 1) \<le> ?n" and hi: "?n < 2 ^ nat (bitlen ?n)"
    by auto
  have b1: "1 \<le> bitlen ?n" using n by (simp add: bitlen_alt_def)
  have "(of_int (2 ^ nat (bitlen ?n - 1)) :: rat) \<le> of_int ?n" using lo by (simp only: of_int_le_iff)
  also have "\<dots> \<le> x" by simp
  finally have L: "2 powi (bitlen ?n - 1) \<le> x" using b1 by (simp add: power_int_nonneg_exp)
  have "?n + 1 \<le> 2 ^ nat (bitlen ?n)" using hi by simp
  then have "(of_int (?n + 1) :: rat) \<le> of_int (2 ^ nat (bitlen ?n))" by (simp only: of_int_le_iff)
  moreover have "x < of_int (?n + 1)" by linarith
  ultimately have "x < of_int (2 ^ nat (bitlen ?n))" by linarith
  then have H: "x < 2 powi (bitlen ?n)" using b1 by (simp add: power_int_nonneg_exp)
  from L H show ?thesis by simp
qed

lemma expo_bounds:
  assumes "0 < x"
  shows "2 powi expo x \<le> x \<and> x < 2 powi (expo x + 1)"
proof (cases "1 \<le> x")
  case True
  with expo_ge1[OF True] show ?thesis by (simp add: expo_def)
next
  case False
  define k where "k = bitlen \<lfloor>1 / x\<rfloor> - 1"
  from False assms have "1 \<le> 1 / x" by simp
  from expo_ge1[OF this] have lo: "2 powi k \<le> 1 / x" and hi: "1 / x < 2 powi (k + 1)"
    by (simp_all add: k_def)
  have p1: "(0::rat) < 2 powi k" and p2: "(0::rat) < 2 powi (k + 1)" by simp_all
  from lo assms p1 have U: "x \<le> 2 powi (- k)"
    by (simp add: power_int_minus field_simps)
  have e: "- k - 1 = - (k + 1)" by simp
  from hi assms p2 have "1 < 2 powi (k + 1) * x" by (simp add: field_simps)
  with p2 have Lw: "2 powi (- k - 1) < x"
    unfolding e power_int_minus by (simp add: field_simps)
  have ex: "expo x = (if x = 2 powi (- k) then - k else - k - 1)"
    using False by (simp add: expo_def Let_def k_def)
  show ?thesis
  proof (cases "x = 2 powi (- k)")
    case True
    have "(2::rat) powi (- k) < 2 powi (- k + 1)"
      by (rule power_int_strict_increasing) simp_all
    with True ex show ?thesis by simp
  next
    case F: False
    with U have "x < 2 powi (- k)" by simp
    with F ex Lw show ?thesis by simp
  qed
qed

lemma expo_unique:
  assumes "2 powi e \<le> (x::rat)" "x < 2 powi (e + 1)"
  shows "expo x = e"
proof -
  have x: "0 < x" using assms(1) by (meson less_le_trans zero_less_numeral zero_less_power_int)
  from expo_bounds[OF x] have a: "2 powi expo x \<le> x" and b: "x < 2 powi (expo x + 1)" by auto
  have "\<not> expo x < e"
  proof
    assume "expo x < e"
    then have "expo x + 1 \<le> e" by simp
    then have "(2::rat) powi (expo x + 1) \<le> 2 powi e" by (intro power_int_increasing) simp_all
    with b assms(1) show False by linarith
  qed
  moreover have "\<not> e < expo x"
  proof
    assume "e < expo x"
    then have "e + 1 \<le> expo x" by simp
    then have "(2::rat) powi (e + 1) \<le> 2 powi expo x" by (intro power_int_increasing) simp_all
    with a assms(2) show False by linarith
  qed
  ultimately show ?thesis by linarith
qed

lemma expo_mono:
  assumes "0 < x" "x \<le> y"
  shows "expo x \<le> expo y"
proof (rule ccontr)
  assume "\<not> expo x \<le> expo y"
  then have "expo y + 1 \<le> expo x" by simp
  then have "(2::rat) powi (expo y + 1) \<le> 2 powi expo x" by (intro power_int_increasing) simp_all
  moreover from assms have "0 < y" by simp
  ultimately show False using expo_bounds[OF assms(1)] expo_bounds[OF \<open>0 < y\<close>] assms(2) by linarith
qed

lemma rne_zero [simp]: "rne 0 = 0"
  using rne_of_int[of 0] by simp

lemma rne_nonneg: "0 \<le> q \<Longrightarrow> 0 \<le> rne q"
  using rne_mono[of 0 q] by simp

lemma round_pos_zero [simp]: "round_pos 0 = 0"
  by (simp add: round_pos_def Let_def)

lemma round_pos_nonneg: "0 \<le> x \<Longrightarrow> 0 \<le> round_pos x"
  by (simp add: round_pos_def Let_def rne_nonneg)

lemma two_powi_split: "(2::rat) powi a = 2 powi (a - b) * 2 powi b"
  by (simp add: power_int_diff)

lemma round_pos_upper:
  assumes "0 < x"
  shows "round_pos x \<le> 2 powi (max (expo x) (- 1022) + 1)"
proof -
  define E where "E = max (expo x) (- 1022)"
  define u :: rat where "u = 2 powi (E - 52)"
  have u: "0 < u" by (simp add: u_def)
  have "x < 2 powi (expo x + 1)" using expo_bounds[OF assms] by simp
  also have "\<dots> \<le> 2 powi (E + 1)" by (intro power_int_increasing) (simp_all add: E_def)
  also have "\<dots> = 2 ^ 53 * u" unfolding u_def
    using two_powi_split[of "E + 1" "E - 52"] by simp
  finally have "x / u \<le> of_int (2 ^ 53)" using u by (simp add: field_simps)
  from rne_mono[OF this] have "rne (x / u) \<le> 2 ^ 53" by (simp only: rne_of_int)
  then have "(of_int (rne (x / u)) :: rat) \<le> of_int (2 ^ 53)" by (simp only: of_int_le_iff)
  then have "of_int (rne (x / u)) * u \<le> 2 ^ 53 * u" using u by simp
  also have "2 ^ 53 * u = 2 powi (E + 1)" unfolding u_def
    using two_powi_split[of "E + 1" "E - 52"] by simp
  finally show ?thesis by (simp add: round_pos_def Let_def E_def u_def)
qed

lemma round_pos_lower:
  assumes "0 < x" "- 1022 \<le> expo x"
  shows "2 powi expo x \<le> round_pos x"
proof -
  define E where "E = expo x"
  define u :: rat where "u = 2 powi (E - 52)"
  have u: "0 < u" by (simp add: u_def)
  have m: "max (expo x) (- 1022) = E" using assms(2) by (simp add: E_def)
  have eq: "2 powi E = 2 ^ 52 * u" unfolding u_def
    using two_powi_split[of "E" "E - 52"] by simp
  have "2 powi E \<le> x" using expo_bounds[OF assms(1)] by (simp add: E_def)
  then have "of_int (2 ^ 52) \<le> x / u" using u eq by (simp add: field_simps)
  from rne_mono[OF this] have "2 ^ 52 \<le> rne (x / u)" by (simp only: rne_of_int)
  then have "(of_int (2 ^ 52) :: rat) \<le> of_int (rne (x / u))" by (simp only: of_int_le_iff)
  then have "2 ^ 52 * u \<le> of_int (rne (x / u)) * u" using u by simp
  with eq show ?thesis by (simp add: round_pos_def Let_def m u_def E_def)
qed

lemma round_pos_mono:
  assumes "0 < x" "x \<le> y"
  shows "round_pos x \<le> round_pos y"
proof -
  define Ex where "Ex = max (expo x) (- 1022)"
  define Ey where "Ey = max (expo y) (- 1022)"
  from assms have y: "0 < y" by simp
  have le: "Ex \<le> Ey" using expo_mono[OF assms] by (simp add: Ex_def Ey_def)
  show ?thesis
  proof (cases "Ex = Ey")
    case True
    have u: "(0::rat) < 2 powi (Ey - 52)" by simp
    have "x / 2 powi (Ey - 52) \<le> y / 2 powi (Ey - 52)"
      using assms(2) u by (simp add: divide_right_mono)
    from rne_mono[OF this]
    have "(of_int (rne (x / 2 powi (Ey - 52))) :: rat) \<le> of_int (rne (y / 2 powi (Ey - 52)))"
      by (simp only: of_int_le_iff)
    then have "of_int (rne (x / 2 powi (Ey - 52))) * 2 powi (Ey - 52)
               \<le> of_int (rne (y / 2 powi (Ey - 52))) * (2::rat) powi (Ey - 52)"
      using u by simp
    then show ?thesis
      using True by (simp add: round_pos_def Let_def Ex_def Ey_def)
  next
    case False
    with le have lt: "Ex < Ey" by simp
    then have ey: "Ey = expo y" "- 1022 \<le> expo y" by (auto simp: Ex_def Ey_def)
    have "round_pos x \<le> 2 powi (Ex + 1)" using round_pos_upper[OF assms(1)] by (simp add: Ex_def)
    also have "\<dots> \<le> 2 powi Ey" using lt by (intro power_int_increasing) simp_all
    also have "\<dots> \<le> round_pos y" using round_pos_lower[OF y ey(2)] ey(1) by simp
    finally show ?thesis .
  qed
qed

lemma round_pos_fix:
  assumes "round_pos x = of_int n * 2 powi (E - 52)" "max (expo (round_pos x)) (- 1022) = E"
  shows "round_pos (round_pos x) = round_pos x"
proof -
  have u: "(2::rat) powi (E - 52) \<noteq> 0" by simp
  have "round_pos (round_pos x) = of_int (rne (round_pos x / 2 powi (E - 52))) * 2 powi (E - 52)"
    using assms(2) by (simp add: round_pos_def[of "round_pos x"] Let_def)
  also have "round_pos x / 2 powi (E - 52) = of_int n" using assms(1) u by simp
  finally show ?thesis using assms(1) by (simp only: rne_of_int)
qed

lemma round_pos_idem:
  assumes "0 \<le> x"
  shows "round_pos (round_pos x) = round_pos x"
proof (cases "round_pos x = 0")
  case True
  then show ?thesis by simp
next
  case False
  with round_pos_nonneg[OF assms] have y: "0 < round_pos x" by simp
  from False assms have x: "0 < x" by (cases "x = 0") auto
  define E where "E = max (expo x) (- 1022)"
  define n where "n = rne (x / 2 powi (E - 52))"
  have yn: "round_pos x = of_int n * 2 powi (E - 52)"
    by (simp add: round_pos_def Let_def E_def n_def)
  have up: "round_pos x \<le> 2 powi (E + 1)" using round_pos_upper[OF x] by (simp add: E_def)
  show ?thesis
  proof (cases "round_pos x = 2 powi (E + 1)")
    case True
    have "(2::rat) powi (E + 1) < 2 powi (E + 1 + 1)" by (rule power_int_strict_increasing) simp_all
    with True have "expo (round_pos x) = E + 1" by (intro expo_unique) simp_all
    moreover have "- 1022 \<le> E" by (simp add: E_def)
    ultimately have m: "max (expo (round_pos x)) (- 1022) = E + 1" by simp
    have "round_pos x = of_int (2 ^ 52) * 2 powi (E + 1 - 52)"
      using True two_powi_split[of "E + 1" "E + 1 - 52"] by simp
    from round_pos_fix[OF this m] show ?thesis .
  next
    case F: False
    with up have lt: "round_pos x < 2 powi (E + 1)" by simp
    have "max (expo (round_pos x)) (- 1022) = E"
    proof (cases "- 1022 \<le> expo x")
      case True
      then have E: "E = expo x" by (simp add: E_def)
      from round_pos_lower[OF x True] lt have "expo (round_pos x) = E"
        unfolding E by (intro expo_unique) simp_all
      with True E show ?thesis by simp
    next
      case False
      then have E: "E = - 1022" by (simp add: E_def)
      have "\<not> - 1021 \<le> expo (round_pos x)"
      proof
        assume "- 1021 \<le> expo (round_pos x)"
        then have "(2::rat) powi (- 1021) \<le> 2 powi expo (round_pos x)"
          by (intro power_int_increasing) simp_all
        with expo_bounds[OF y] lt E show False by simp
      qed
      with E show ?thesis by simp
    qed
    from round_pos_fix[OF yn this] show ?thesis .
  qed
qed

lemma round_rat_zero [simp]: "round_rat 0 = 0"
  by (simp add: round_rat_def)

lemma round_rat_mono:
  assumes "x \<le> y"
  shows "round_rat x \<le> round_rat y"
proof -
  consider "0 \<le> x" | "x < 0" "0 \<le> y" | "y < 0" using assms by linarith
  then show ?thesis
  proof cases
    case 1
    with assms have "round_pos x \<le> round_pos y"
      by (cases "x = 0") (simp_all add: round_pos_nonneg round_pos_mono)
    with 1 assms show ?thesis by (simp add: round_rat_def)
  next
    case 2
    then have "0 \<le> round_pos (- x)" "0 \<le> round_pos y" by (simp_all add: round_pos_nonneg)
    with 2 show ?thesis by (simp add: round_rat_def)
  next
    case 3
    with assms have "round_pos (- y) \<le> round_pos (- x)" by (intro round_pos_mono) simp_all
    with 3 assms show ?thesis by (simp add: round_rat_def)
  qed
qed

lemma round_rat_idem: "round_rat (round_rat x) = round_rat x"
proof (cases "0 \<le> x")
  case True
  then show ?thesis by (simp add: round_rat_def round_pos_nonneg round_pos_idem)
next
  case False
  then have nn: "0 \<le> round_pos (- x)" by (simp add: round_pos_nonneg)
  show ?thesis
  proof (cases "round_pos (- x) = 0")
    case True
    with False show ?thesis by (simp add: round_rat_def)
  next
    case F: False
    with nn have "0 < round_pos (- x)" by simp
    with False show ?thesis by (simp add: round_rat_def round_pos_idem)
  qed
qed

lemma round_rat_one [simp]: "round_rat 1 = 1"
  by code_simp

lemma expo_zero [simp]: "expo 0 = 0"
  by (simp add: expo_def)

lemma to_double_zero [simp]: "to_double 0 = Num 0"
  by (simp add: to_double_def)

lemma to_double_nonneg:
  assumes "0 \<le> x"
  shows "to_double x = PosInf \<or> (to_double x = Num (round_rat x) \<and> 0 \<le> round_rat x)"
proof -
  have "0 \<le> round_rat x" using round_rat_mono[OF assms] by simp
  then show ?thesis using assms
    by (cases "round_rat x = 0") (auto simp: to_double_def Let_def)
qed

lemma to_double_nonpos:
  assumes "x \<le> 0"
  shows "to_double x = NegInf \<or> to_double x = NegZero \<or>
         (to_double x = Num (round_rat x) \<and> round_rat x \<le> 0)"
proof -
  have "round_rat x \<le> 0" using round_rat_mono[OF assms] by simp
  then show ?thesis by (auto simp: to_double_def Let_def)
qed

lemma to_double_Num:
  "to_double x = Num y \<Longrightarrow> y = round_rat x \<and> \<not> 1024 \<le> expo \<bar>y\<bar>"
  by (auto simp: to_double_def Let_def split: if_splits)

lemma to_double_idem:
  assumes "to_double x = Num y"
  shows "to_double y = Num y"
proof -
  from to_double_Num[OF assms] have y: "y = round_rat x" and t: "\<not> 1024 \<le> expo \<bar>y\<bar>"
    by blast+
  have r: "round_rat y = y" unfolding y by (rule round_rat_idem)
  have "to_double y =
          (if 1024 \<le> expo \<bar>y\<bar> then (if 0 < y then PosInf else NegInf)
           else if y = 0 \<and> y < 0 then NegZero else Num y)"
    by (simp only: to_double_def Let_def r)
  with t show ?thesis by simp
qed

lemma to_double_one [simp]: "to_double 1 = Num 1"
  by code_simp

lemma js_sub_Num [simp]: "js_sub (Num a) (Num b) = to_double (a - b)"
  by (simp add: js_sub_def)

lemma progress_done:
  assumes "0 \<le> d" "to_double d = Num d" "d \<le> ts - t0"
  shows "\<not> js_lt (progress_at (Num ts) (Num t0) (Num d)) (Num 1)"
    and "0 < d \<Longrightarrow> progress_at (Num ts) (Num t0) (Num d) = Num 1"
proof -
  have dd: "round_rat d = d" using to_double_Num[OF assms(2)] by simp
  have e0: "0 \<le> ts - t0" using assms by simp
  have en: "d \<le> round_rat (ts - t0)" using round_rat_mono[OF assms(3)] dd by simp
  consider "to_double (ts - t0) = PosInf"
    | "to_double (ts - t0) = Num (round_rat (ts - t0))"
    using to_double_nonneg[OF e0] by auto
  then have "(\<not> js_lt (progress_at (Num ts) (Num t0) (Num d)) (Num 1)) \<and>
             (0 < d \<longrightarrow> progress_at (Num ts) (Num t0) (Num d) = Num 1)"
  proof cases
    case 1
    with assms(1) show ?thesis by (simp add: progress_at_def)
  next
    case 2
    show ?thesis
    proof (cases "d = 0")
      case True
      with 2 en show ?thesis by (simp add: progress_at_def)
    next
      case False
      with assms(1) have dp: "0 < d" by simp
      let ?q = "round_rat (ts - t0) / d"
      have q1: "1 \<le> ?q" using en dp by simp
      then have q0: "0 \<le> ?q" by simp
      have r1: "1 \<le> round_rat ?q" using round_rat_mono[OF q1] by simp
      from to_double_nonneg[OF q0] r1 2 dp show ?thesis
        by (auto simp: progress_at_def split: if_splits)
    qed
  qed
  then show "\<not> js_lt (progress_at (Num ts) (Num t0) (Num d)) (Num 1)"
    and "0 < d \<Longrightarrow> progress_at (Num ts) (Num t0) (Num d) = Num 1" by auto
qed

lemma progress_never:
  assumes "d < 0" "t0 \<le> ts"
  shows "js_lt (progress_at (Num ts) (Num t0) (Num d)) (Num 1)"
proof -
  have e0: "0 \<le> ts - t0" using assms by simp
  consider "to_double (ts - t0) = PosInf"
    | "to_double (ts - t0) = Num (round_rat (ts - t0))" "0 \<le> round_rat (ts - t0)"
    using to_double_nonneg[OF e0] by auto
  then show ?thesis
  proof cases
    case 1
    with assms(1) show ?thesis by (simp add: progress_at_def)
  next
    case 2
    let ?q = "round_rat (ts - t0) / d"
    have q0: "?q \<le> 0" using 2(2) assms(1) by (simp add: divide_nonneg_neg)
    from to_double_nonpos[OF q0] 2 assms(1) show ?thesis
      by (auto simp: progress_at_def)
  qed
qed

lemma segment_duration:
  assumes "0 < d" "to_double d = Num d" "0 < N"
  shows "\<exists>s. js_div (Num d) (Num (of_nat N)) = Num s \<and> 0 \<le> s \<and> to_double s = Num s"
proof -
  let ?q = "d / of_nat N"
  have q0: "0 \<le> ?q" using assms by simp
  have qd: "?q \<le> d" using assms by (simp add: field_simps mult_le_cancel_left1)
  have dd: "round_rat d = d" and de: "\<not> 1024 \<le> expo \<bar>d\<bar>"
    using to_double_Num[OF assms(2)] by simp_all
  have r0: "0 \<le> round_rat ?q" using round_rat_mono[OF q0] by simp
  have rd: "round_rat ?q \<le> d" using round_rat_mono[OF qd] dd by simp
  have "\<not> 1024 \<le> expo \<bar>round_rat ?q\<bar>"
  proof (cases "round_rat ?q = 0")
    case True
    then show ?thesis by simp
  next
    case False
    with r0 have "0 < round_rat ?q" by simp
    from expo_mono[OF this rd] de assms(1) r0 show ?thesis by simp
  qed
  then have td: "to_double ?q = Num (round_rat ?q)" using q0 by (simp add: to_double_def Let_def)
  from to_double_idem[OF td] td r0 assms(1,3) show ?thesis by simp
qed

lemma to_double_cases:
  "to_double x = PosInf \<or> to_double x = NegInf \<or> to_double x = NegZero \<or>
   to_double x = Num (round_rat x)"
  by (simp add: to_double_def Let_def)

lemma progress_final:
  assumes "0 < d" "\<not> js_lt (progress_at (Num ts) (Num t0) (Num d)) (Num 1)"
  shows "progress_at (Num ts) (Num t0) (Num d) = Num 1"
proof -
  consider "to_double (ts - t0) = PosInf" | "to_double (ts - t0) = NegInf"
    | "to_double (ts - t0) = NegZero" | "to_double (ts - t0) = Num (round_rat (ts - t0))"
    using to_double_cases by blast
  then show ?thesis
  proof cases
    case 1
    with assms show ?thesis by (simp add: progress_at_def)
  next
    case 2
    with assms show ?thesis by (simp add: progress_at_def)
  next
    case 3
    with assms show ?thesis by (simp add: progress_at_def)
  next
    case 4
    from to_double_cases[of "round_rat (ts - t0) / d"] 4 assms show ?thesis
      by (auto simp: progress_at_def split: if_splits)
  qed
qed

section \<open>The host loop\<close>

lemma host_stuck:
  assumes "\<And>f. step s f = ([], s)"
  shows "host step (tr, s) sched n = (tr, s)"
  by (induction n) (simp_all add: assms)

lemma host_invariant:
  assumes "P (snd init)" and "\<And>s f. P s \<Longrightarrow> P (snd (step s f))"
  shows "P (snd (host step init sched n))"
proof (induction n)
  case 0
  show ?case using assms(1) by simp
next
  case (Suc n)
  obtain tr s where h: "host step init sched n = (tr, s)"
    by (cases "host step init sched n")
  obtain calls s' where st: "step s (sched n) = (calls, s')"
    by (cases "step s (sched n)")
  from Suc h have "P s" by simp
  from assms(2)[OF this, of "sched n"] st have "P s'" by simp
  with h st show ?case by simp
qed

lemma host_add:
  "host step init sched (n + k) = host step (host step init sched n) (\<lambda>i. sched (n + i)) k"
  by (induction k) (simp_all add: add.commute add.left_commute)

lemma host_invariant2:
  assumes "P init" and "\<And>tr s f. P (tr, s) \<Longrightarrow> P (tr @ fst (step s f), snd (step s f))"
  shows "P (host step init sched n)"
proof (induction n)
  case 0
  show ?case using assms(1) by simp
next
  case (Suc n)
  obtain tr s where h: "host step init sched n = (tr, s)"
    by (cases "host step init sched n")
  from assms(2)[of tr s "sched n"] Suc h show ?case
    by (simp add: case_prod_beta)
qed

lemma host_prefix:
  "prefix (fst (host step init sched m)) (fst (host step init sched (m + k)))"
proof (induction k)
  case 0
  show ?case by simp
next
  case (Suc k)
  have "fst (host step init sched (m + Suc k)) =
          fst (host step init sched (m + k)) @
          fst (step (snd (host step init sched (m + k))) (sched (m + k)))"
    by (simp add: case_prod_beta)
  with Suc show ?case by (simp only: prefix_prefix)
qed

lemma host_stays:
  assumes "\<And>f. step s f = ([], s)" "host step init sched n = (tr, s)" "n \<le> m"
  shows "host step init sched m = (tr, s)"
proof -
  from assms(3) obtain k where m: "m = n + k" using le_Suc_ex by blast
  show ?thesis unfolding m host_add assms(2) by (rule host_stuck) (rule assms(1))
qed

section \<open>Point-to-point moves\<close>

lemma animate_logged:
  "animate (Some cb) m ts =
     (cb (calculateLinearInterpolation (px (startPoint m)) (px (endPoint m))
            (progress_at ts (startTime m) (duration m)))
         (calculateLinearInterpolation (py (startPoint m)) (py (endPoint m))
            (progress_at ts (startTime m) (duration m)))
         (stepIndex m),
      if js_lt (progress_at ts (startTime m) (duration m)) (Num 1)
      then Again (m\<lparr>stepIndex := Suc (stepIndex m)\<rparr>) else Finished)"
  by (simp add: animate_def progress_at_def Let_def)

lemma host_Idle:
  "host (mover_frame sc cc) (tr, Idle) sched n = (tr, Idle)"
  by (rule host_stuck) simp

lemma move_run_running:
  assumes "\<forall>i<n. js_lt (progress_at (timestamp (sched i)) now d) (Num 1)"
  shows "move_run p q d now sched n =
           (map (\<lambda>i. move_step p q (progress_at (timestamp (sched i)) now d) i) [0..<n],
            Pending ((moveBetweenPoints p q d now)\<lparr>stepIndex := n\<rparr>))"
  using assms
proof (induction n)
  case 0
  show ?case by (simp add: move_run_def moveBetweenPoints_def)
next
  case (Suc n)
  then have ih: "move_run p q d now sched n =
           (map (\<lambda>i. move_step p q (progress_at (timestamp (sched i)) now d) i) [0..<n],
            Pending ((moveBetweenPoints p q d now)\<lparr>stepIndex := n\<rparr>))"
    and lt: "js_lt (progress_at (timestamp (sched n)) now d) (Num 1)" by simp_all
  show ?case
    using ih lt
    by (simp add: move_run_def animate_logged move_step_def moveBetweenPoints_def)
qed

lemma move_run_finish:
  assumes "\<forall>i<n. js_lt (progress_at (timestamp (sched i)) now d) (Num 1)"
    and "\<not> js_lt (progress_at (timestamp (sched n)) now d) (Num 1)"
  shows "move_run p q d now sched (Suc n) =
           (map (\<lambda>i. move_step p q (progress_at (timestamp (sched i)) now d) i) [0..<n] @
            [move_step p q (progress_at (timestamp (sched n)) now d) n, Complete], Idle)"
  using move_run_running[OF assms(1), of p q] assms(2)
  by (simp add: move_run_def animate_logged move_step_def moveBetweenPoints_def)

lemma move_run_idle:
  assumes "move_run p q d now sched n = (tr, Idle)" "n \<le> m"
  shows "move_run p q d now sched m = (tr, Idle)"
proof -
  from assms(2) obtain k where m: "m = n + k" using le_Suc_ex by blast
  show ?thesis using assms(1) unfolding m move_run_def host_add by (simp add: host_Idle)
qed

lemma lerp_end:
  assumes "to_double (b - a) = Num (b - a)" "to_double b = Num b"
  shows "calculateLinearInterpolation (Num a) (Num b) (Num 1) = Num b"
proof (cases "b = a")
  case True
  with assms(2) show ?thesis by (simp add: calculateLinearInterpolation_def)
next
  case False
  with assms show ?thesis by (simp add: calculateLinearInterpolation_def)
qed

lemma move_run_complete_once:
  "count_list (fst (move_run p q d now sched n)) Complete \<le> 1"
proof -
  let ?P = "\<lambda>(tr, s). (\<forall>m. s = Pending m \<longrightarrow> count_list tr Complete = 0) \<and>
                       count_list tr Complete \<le> 1"
  have "?P (move_run p q d now sched n)"
    unfolding move_run_def
  proof (rule host_invariant2)
    show "?P ([], Pending (moveBetweenPoints p q d now))" by simp
  next
    fix tr s f
    assume "?P (tr, s :: mover task)"
    then show "?P (tr @ fst (mover_frame (Some (\<lambda>x y i. [Step x y i])) (Some [Complete]) s f),
                   snd (mover_frame (Some (\<lambda>x y i. [Step x y i])) (Some [Complete]) s f))"
      by (cases s) (auto simp: animate_logged)
  qed
  then show ?thesis by (simp add: case_prod_beta)
qed

lemma move_run_negative:
  assumes "d < 0" "\<forall>i<n. \<exists>ti. timestamp (sched i) = Num ti \<and> t0 \<le> ti"
  shows "\<exists>tr m. move_run p q (Num d) (Num t0) sched n = (tr, Pending m) \<and> Complete \<notin> set tr"
proof -
  have "\<forall>i<n. js_lt (progress_at (timestamp (sched i)) (Num t0) (Num d)) (Num 1)"
    using assms progress_never by fastforce
  from move_run_running[OF this, of p q] show ?thesis by (auto simp: move_step_def)
qed

lemma move_run_zero:
  assumes "timestamp (sched j) = Num tj" "t0 \<le> tj" "j < m"
  shows "snd (move_run p q (Num 0) (Num t0) sched m) = Idle"
proof -
  let ?P = "\<lambda>i. \<not> js_lt (progress_at (timestamp (sched i)) (Num t0) (Num 0)) (Num 1)"
  have z: "to_double 0 = Num 0" by (simp add: to_double_def)
  have "?P j" using progress_done(1)[of 0 tj t0] assms(1,2) z by simp
  then have n: "?P (LEAST i. ?P i)" and le: "(LEAST i. ?P i) \<le> j"
    by (rule LeastI, rule Least_le)
  have "\<forall>i<(LEAST i. ?P i). js_lt (progress_at (timestamp (sched i)) (Num t0) (Num 0)) (Num 1)"
    using not_less_Least by blast
  from move_run_finish[OF this n, of p q] obtain tr where
    "move_run p q (Num 0) (Num t0) sched (Suc (LEAST i. ?P i)) = (tr, Idle)" by blast
  from move_run_idle[OF this, of m] le assms(3) show ?thesis by simp
qed

text \<open>
  C1, as the code has it. Let the duration be a positive binary64 number, let the start time
  be finite, let the frames up to a frame \<open>j\<close> carry finite time stamps, and let the time
  stamp of frame \<open>j\<close> be at or after the start time plus the duration. Then there is a frame
  \<open>n \<le> j\<close>, the terminal one: up to it the log holds one step per frame, with the indices
  \<open>0, 1, ...\<close>, and no completion; from it on the log is these steps, the step of frame \<open>n\<close>
  at progress 1, and one call of the completion callback, and it never grows again. The
  terminal step reports \<open>start + (end - start) * 1\<close> as binary64 arithmetic computes it; that
  is the end coordinate when both coordinates are finite, neither is the negative zero, and
  \<open>end - start\<close> and \<open>end\<close> are binary64 numbers.
\<close>

theorem moveBetweenPoints_terminal:
  assumes "0 < d" and "to_double d = Num d"
    and "\<forall>i\<le>j. \<exists>ts. timestamp (sched i) = Num ts"
    and "timestamp (sched j) = Num tj" and "t0 + d \<le> tj"
  shows "\<exists>n pre. n \<le> j \<and> length pre = n \<and> (\<forall>i<n. \<exists>x y. pre ! i = Step x y i) \<and>
           (\<forall>m\<le>n. fst (move_run p q (Num d) (Num t0) sched m) = take m pre) \<and>
           (\<forall>m>n. move_run p q (Num d) (Num t0) sched m =
              (pre @ [Step (calculateLinearInterpolation (px p) (px q) (Num 1))
                           (calculateLinearInterpolation (py p) (py q) (Num 1)) n,
                      Complete], Idle)) \<and>
           (\<forall>a b. to_double (b - a) = Num (b - a) \<and> to_double b = Num b \<longrightarrow>
              calculateLinearInterpolation (Num a) (Num b) (Num 1) = Num b)"
proof -
  let ?pr = "\<lambda>i. progress_at (timestamp (sched i)) (Num t0) (Num d)"
  let ?P = "\<lambda>i. \<not> js_lt (?pr i) (Num 1)"
  define n where "n = (LEAST i. ?P i)"
  define pre where "pre = map (\<lambda>i. move_step p q (?pr i) i) [0..<n]"
  have "?P j" using progress_done(1)[of d tj t0] assms by simp
  then have Pn: "?P n" and nj: "n \<le> j" unfolding n_def by (rule LeastI, rule Least_le)
  have before: "\<forall>i<n. js_lt (?pr i) (Num 1)"
    unfolding n_def using not_less_Least by blast
  from assms(3) nj obtain tn where tn: "timestamp (sched n) = Num tn" by auto
  have one: "?pr n = Num 1" using progress_final[OF assms(1)] Pn tn by simp
  have fin: "move_run p q (Num d) (Num t0) sched (Suc n) =
      (pre @ [Step (calculateLinearInterpolation (px p) (px q) (Num 1))
                   (calculateLinearInterpolation (py p) (py q) (Num 1)) n, Complete], Idle)"
    using move_run_finish[OF before Pn, of p q] one by (simp add: pre_def move_step_def)
  have a: "length pre = n" by (simp add: pre_def)
  have b: "\<forall>i<n. \<exists>x y. pre ! i = Step x y i" by (simp add: pre_def move_step_def)
  have c: "\<forall>m\<le>n. fst (move_run p q (Num d) (Num t0) sched m) = take m pre"
  proof (intro allI impI)
    fix m assume m: "m \<le> n"
    with before have "\<forall>i<m. js_lt (?pr i) (Num 1)" by simp
    from move_run_running[OF this, of p q] m show
      "fst (move_run p q (Num d) (Num t0) sched m) = take m pre"
      by (simp add: pre_def take_map)
  qed
  have d: "\<forall>m>n. move_run p q (Num d) (Num t0) sched m =
      (pre @ [Step (calculateLinearInterpolation (px p) (px q) (Num 1))
                   (calculateLinearInterpolation (py p) (py q) (Num 1)) n, Complete], Idle)"
    using move_run_idle[OF fin] by (simp add: Suc_le_eq)
  from nj a b c d lerp_end show ?thesis by blast
qed

theorem moveBetweenPoints_terminal_witness:
  "(0::rat) < 1000 \<and> to_double 1000 = Num 1000 \<and>
   (\<exists>ts. timestamp (ticks 500 0) = Num ts) \<and> (\<exists>ts. timestamp (ticks 500 1) = Num ts) \<and>
   timestamp (ticks 500 1) = Num 1000 \<and> (0::rat) + 1000 \<le> 1000 \<and>
   (\<exists>n pre. n \<le> 1 \<and> length pre = n \<and> (\<forall>i<n. \<exists>x y. pre ! i = Step x y i) \<and>
      (\<forall>m\<le>n. fst (move_run \<lparr>px = Num 0, py = Num 0\<rparr> \<lparr>px = Num 100, py = Num 100\<rparr>
                       (Num 1000) (Num 0) (ticks 500) m) = take m pre) \<and>
      (\<forall>m>n. move_run \<lparr>px = Num 0, py = Num 0\<rparr> \<lparr>px = Num 100, py = Num 100\<rparr>
                (Num 1000) (Num 0) (ticks 500) m =
              (pre @ [Step (calculateLinearInterpolation (Num 0) (Num 100) (Num 1))
                           (calculateLinearInterpolation (Num 0) (Num 100) (Num 1)) n,
                      Complete], Idle)) \<and>
      (\<forall>a b. to_double (b - a) = Num (b - a) \<and> to_double b = Num b \<longrightarrow>
         calculateLinearInterpolation (Num a) (Num b) (Num 1) = Num b))"
proof -
  have d: "to_double 1000 = Num 1000" by code_simp
  have f0: "\<exists>ts. timestamp (ticks 500 0) = Num ts" and f1: "\<exists>ts. timestamp (ticks 500 1) = Num ts"
    by (simp_all add: ticks_def)
  have f: "\<forall>i\<le>1. \<exists>ts. timestamp (ticks 500 i) = Num ts" by (simp add: ticks_def)
  have t: "timestamp (ticks 500 1) = Num 1000" by (simp add: ticks_def)
  have p: "(0::rat) < 1000" and l: "(0::rat) + 1000 \<le> 1000" by simp_all
  note w = moveBetweenPoints_terminal[OF p d f t l,
      of "\<lparr>px = Num 0, py = Num 0\<rparr>" "\<lparr>px = Num 100, py = Num 100\<rparr>"]
  have w': "\<exists>n pre. n \<le> 1 \<and> length pre = n \<and> (\<forall>i<n. \<exists>x y. pre ! i = Step x y i) \<and>
      (\<forall>m\<le>n. fst (move_run \<lparr>px = Num 0, py = Num 0\<rparr> \<lparr>px = Num 100, py = Num 100\<rparr>
                       (Num 1000) (Num 0) (ticks 500) m) = take m pre) \<and>
      (\<forall>m>n. move_run \<lparr>px = Num 0, py = Num 0\<rparr> \<lparr>px = Num 100, py = Num 100\<rparr>
                (Num 1000) (Num 0) (ticks 500) m =
              (pre @ [Step (calculateLinearInterpolation (Num 0) (Num 100) (Num 1))
                           (calculateLinearInterpolation (Num 0) (Num 100) (Num 1)) n,
                      Complete], Idle)) \<and>
      (\<forall>a b. to_double (b - a) = Num (b - a) \<and> to_double b = Num b \<longrightarrow>
         calculateLinearInterpolation (Num a) (Num b) (Num 1) = Num b)"
    using w by (simp only: point.simps)
  show ?thesis
    by (intro conjI p d f0 f1 t l w')
qed

text \<open>
  The terminal step need not report the end point: a move from \<open>x = 2 ^ 54\<close> to \<open>x = 1\<close> ends
  with a step at \<open>x = 0\<close>, since \<open>1 - 2 ^ 54\<close> rounds to \<open>- 2 ^ 54\<close>.
\<close>

theorem moveBetweenPoints_terminal_counterexample:
  "move_run \<lparr>px = Num (2 ^ 54), py = Num 0\<rparr> \<lparr>px = Num 1, py = Num 0\<rparr> (Num 1) (Num 0)
     (ticks 1) 1 = ([Step (Num 0) (Num 0) 0, Complete], Idle) \<and> Num 0 \<noteq> Num 1"
  by code_simp

lemma move_run_never:
  assumes "\<forall>i<n. js_lt (progress_at (timestamp (sched i)) now d) (Num 1)"
  shows "\<exists>tr m. move_run p q d now sched n = (tr, Pending m) \<and> Complete \<notin> set tr"
  using move_run_running[OF assms, of p q] by (auto simp: move_step_def)

lemma progress_negzero:
  assumes "js_lt (Num 0) (js_sub ts t0)"
  shows "js_lt (progress_at ts t0 NegZero) (Num 1)"
  using assms by (cases "js_sub ts t0") (simp_all add: progress_at_def)

lemma progress_neginf:
  assumes "js_sub ts t0 = Num e \<or> js_sub ts t0 = NegZero"
  shows "js_lt (progress_at ts t0 NegInf) (Num 1)"
  using assms by (auto simp: progress_at_def)

lemma js_le_zero_cases:
  assumes "js_le d (Num 0)"
  shows "d = Num 0 \<or> (\<exists>d'. d = Num d' \<and> d' < 0) \<or> d = NegZero \<or> d = NegInf"
  using assms by (cases d) (auto simp: js_le_def)

text \<open>
  C5, as the code has it. A duration with \<open>duration <= 0\<close> is the positive zero, a negative
  number, the negative zero or the negative infinity. Whatever the duration, the completion
  callback is called at most once. With the positive zero the move is over after the first
  frame whose time stamp is not before the start time. With a negative number the move is
  still running, and has not called the completion callback, after any number of frames whose
  time stamps are not before the start time; with the negative zero, after any number of
  frames at which the elapsed time \<open>timestamp - startTime\<close> is positive; with the negative
  infinity, after any number of frames at which the elapsed time is finite.
\<close>

theorem moveBetweenPoints_nonpositive:
  assumes "js_le d (Num 0)"
  shows "count_list (fst (move_run p q d (Num t0) sched n)) Complete \<le> 1 \<and>
         (d = Num 0 \<or> (\<exists>d'. d = Num d' \<and> d' < 0) \<or> d = NegZero \<or> d = NegInf) \<and>
         (d = Num 0 \<longrightarrow>
            (\<forall>j tj m. timestamp (sched j) = Num tj \<and> t0 \<le> tj \<and> j < m \<longrightarrow>
               snd (move_run p q d (Num t0) sched m) = Idle)) \<and>
         ((\<exists>d'. d = Num d' \<and> d' < 0) \<longrightarrow>
            (\<forall>m. (\<forall>i<m. \<exists>ti. timestamp (sched i) = Num ti \<and> t0 \<le> ti) \<longrightarrow>
               (\<exists>tr mv. move_run p q d (Num t0) sched m = (tr, Pending mv) \<and>
                  Complete \<notin> set tr))) \<and>
         (d = NegZero \<longrightarrow>
            (\<forall>m. (\<forall>i<m. js_lt (Num 0) (js_sub (timestamp (sched i)) (Num t0))) \<longrightarrow>
               (\<exists>tr mv. move_run p q d (Num t0) sched m = (tr, Pending mv) \<and>
                  Complete \<notin> set tr))) \<and>
         (d = NegInf \<longrightarrow>
            (\<forall>m. (\<forall>i<m. \<exists>e. js_sub (timestamp (sched i)) (Num t0) = Num e \<or>
                            js_sub (timestamp (sched i)) (Num t0) = NegZero) \<longrightarrow>
               (\<exists>tr mv. move_run p q d (Num t0) sched m = (tr, Pending mv) \<and>
                  Complete \<notin> set tr)))"
proof (intro conjI impI allI)
  show "count_list (fst (move_run p q d (Num t0) sched n)) Complete \<le> 1"
    by (rule move_run_complete_once)
next
  show "d = Num 0 \<or> (\<exists>d'. d = Num d' \<and> d' < 0) \<or> d = NegZero \<or> d = NegInf"
    by (rule js_le_zero_cases[OF assms])
next
  fix j tj m
  assume "d = Num 0" and "timestamp (sched j) = Num tj \<and> t0 \<le> tj \<and> j < m"
  then show "snd (move_run p q d (Num t0) sched m) = Idle"
    using move_run_zero[of sched j tj t0 m p q] by simp
next
  fix m
  assume "\<exists>d'. d = Num d' \<and> d' < 0"
    and "\<forall>i<m. \<exists>ti. timestamp (sched i) = Num ti \<and> t0 \<le> ti"
  then show "\<exists>tr mv. move_run p q d (Num t0) sched m = (tr, Pending mv) \<and>
                Complete \<notin> set tr"
    using move_run_negative by blast
next
  fix m
  assume d: "d = NegZero"
    and "\<forall>i<m. js_lt (Num 0) (js_sub (timestamp (sched i)) (Num t0))"
  then have "\<forall>i<m. js_lt (progress_at (timestamp (sched i)) (Num t0) NegZero) (Num 1)"
    using progress_negzero by blast
  then show "\<exists>tr mv. move_run p q d (Num t0) sched m = (tr, Pending mv) \<and>
                Complete \<notin> set tr"
    unfolding d by (rule move_run_never)
next
  fix m
  assume d: "d = NegInf"
    and "\<forall>i<m. \<exists>e. js_sub (timestamp (sched i)) (Num t0) = Num e \<or>
                   js_sub (timestamp (sched i)) (Num t0) = NegZero"
  then have "\<forall>i<m. js_lt (progress_at (timestamp (sched i)) (Num t0) NegInf) (Num 1)"
    using progress_neginf by blast
  then show "\<exists>tr mv. move_run p q d (Num t0) sched m = (tr, Pending mv) \<and>
                Complete \<notin> set tr"
    unfolding d by (rule move_run_never)
qed

theorem moveBetweenPoints_nonpositive_witness:
  "js_le (Num 0) (Num 0) \<and> timestamp (ticks 16 0) = Num 16 \<and> (0::rat) \<le> 16 \<and> (0::nat) < 3 \<and>
   count_list (fst (move_run \<lparr>px = Num 0, py = Num 0\<rparr> \<lparr>px = Num 10, py = Num 0\<rparr>
                      (Num 0) (Num 0) (ticks 16) 3)) Complete \<le> 1 \<and>
   snd (move_run \<lparr>px = Num 0, py = Num 0\<rparr> \<lparr>px = Num 10, py = Num 0\<rparr>
          (Num 0) (Num 0) (ticks 16) 3) = Idle \<and>
   js_le (Num (- 1)) (Num 0) \<and> (- 1 :: rat) < 0 \<and>
   (\<exists>ti. timestamp (ticks 16 0) = Num ti \<and> 0 \<le> ti) \<and>
   (\<exists>ti. timestamp (ticks 16 1) = Num ti \<and> 0 \<le> ti) \<and>
   (\<exists>ti. timestamp (ticks 16 2) = Num ti \<and> 0 \<le> ti) \<and>
   (\<exists>tr mv. move_run \<lparr>px = Num 0, py = Num 0\<rparr> \<lparr>px = Num 10, py = Num 0\<rparr>
               (Num (- 1)) (Num 0) (ticks 16) 3 = (tr, Pending mv) \<and> Complete \<notin> set tr) \<and>
   js_le NegZero (Num 0) \<and>
   js_lt (Num 0) (js_sub (timestamp (ticks 16 0)) (Num 0)) \<and>
   js_lt (Num 0) (js_sub (timestamp (ticks 16 1)) (Num 0)) \<and>
   js_lt (Num 0) (js_sub (timestamp (ticks 16 2)) (Num 0)) \<and>
   (\<exists>tr mv. move_run \<lparr>px = Num 0, py = Num 0\<rparr> \<lparr>px = Num 10, py = Num 0\<rparr>
               NegZero (Num 0) (ticks 16) 3 = (tr, Pending mv) \<and> Complete \<notin> set tr) \<and>
   js_le NegInf (Num 0) \<and>
   js_sub (timestamp (ticks 16 0)) (Num 0) = Num 16 \<and>
   js_sub (timestamp (ticks 16 1)) (Num 0) = Num 32 \<and>
   js_sub (timestamp (ticks 16 2)) (Num 0) = Num 48 \<and>
   (\<exists>tr mv. move_run \<lparr>px = Num 0, py = Num 0\<rparr> \<lparr>px = Num 10, py = Num 0\<rparr>
               NegInf (Num 0) (ticks 16) 3 = (tr, Pending mv) \<and> Complete \<notin> set tr)"
proof -
  let ?p = "\<lparr>px = Num 0, py = Num 0\<rparr>" and ?q = "\<lparr>px = Num 10, py = Num 0\<rparr>"
  have three: "\<And>i::nat. i < 3 \<Longrightarrow> i = 0 \<or> i = 1 \<or> i = 2" by linarith
  have t: "timestamp (ticks 16 0) = Num 16" by (simp add: ticks_def)
  have f0: "\<exists>ti. timestamp (ticks 16 0) = Num ti \<and> 0 \<le> ti"
    and f1: "\<exists>ti. timestamp (ticks 16 1) = Num ti \<and> 0 \<le> ti"
    and f2: "\<exists>ti. timestamp (ticks 16 2) = Num ti \<and> 0 \<le> ti" by (simp_all add: ticks_def)
  have f: "\<forall>i<3. \<exists>ti. timestamp (ticks 16 i) = Num ti \<and> 0 \<le> ti"
    using three f0 f1 f2 by blast
  have g0: "js_lt (Num 0) (js_sub (timestamp (ticks 16 0)) (Num 0))"
    and g1: "js_lt (Num 0) (js_sub (timestamp (ticks 16 1)) (Num 0))"
    and g2: "js_lt (Num 0) (js_sub (timestamp (ticks 16 2)) (Num 0))" by code_simp+
  have g: "\<forall>i<3. js_lt (Num 0) (js_sub (timestamp (ticks 16 i)) (Num 0))"
    using three g0 g1 g2 by blast
  have e0: "js_sub (timestamp (ticks 16 0)) (Num 0) = Num 16"
    and e1: "js_sub (timestamp (ticks 16 1)) (Num 0) = Num 32"
    and e2: "js_sub (timestamp (ticks 16 2)) (Num 0) = Num 48" by code_simp+
  have e: "\<forall>i<3. \<exists>e. js_sub (timestamp (ticks 16 i)) (Num 0) = Num e \<or>
                      js_sub (timestamp (ticks 16 i)) (Num 0) = NegZero"
    using three e0 e1 e2 by blast
  have z: "js_le (Num 0) (Num 0)" and m: "js_le (Num (- 1)) (Num 0)"
    and nz: "js_le NegZero (Num 0)" and ni: "js_le NegInf (Num 0)"
    by (simp_all add: js_le_def)
  have m': "(- 1 :: rat) < 0" and s: "(0::rat) \<le> 16" and n3: "(0::nat) < 3" by simp_all
  note w0 = moveBetweenPoints_nonpositive[OF z, of ?p ?q 0 "ticks 16" 3]
  from w0 have a: "count_list (fst (move_run ?p ?q (Num 0) (Num 0) (ticks 16) 3)) Complete \<le> 1"
    by (rule conjunct1)
  from w0 have "\<forall>j tj m. timestamp (ticks 16 j) = Num tj \<and> 0 \<le> tj \<and> j < m \<longrightarrow>
               snd (move_run ?p ?q (Num 0) (Num 0) (ticks 16) m) = Idle"
    by blast
  with t s n3 have b: "snd (move_run ?p ?q (Num 0) (Num 0) (ticks 16) 3) = Idle" by blast
  note w1 = moveBetweenPoints_nonpositive[OF m, of ?p ?q 0 "ticks 16" 3]
  from w1 m' have "\<forall>m. (\<forall>i<m. \<exists>ti. timestamp (ticks 16 i) = Num ti \<and> 0 \<le> ti) \<longrightarrow>
               (\<exists>tr mv. move_run ?p ?q (Num (- 1)) (Num 0) (ticks 16) m = (tr, Pending mv) \<and>
                  Complete \<notin> set tr)"
    by blast
  with f have c: "\<exists>tr mv. move_run ?p ?q (Num (- 1)) (Num 0) (ticks 16) 3 = (tr, Pending mv) \<and>
                  Complete \<notin> set tr" by blast
  note w2 = moveBetweenPoints_nonpositive[OF nz, of ?p ?q 0 "ticks 16" 3]
  from w2 have "\<forall>m. (\<forall>i<m. js_lt (Num 0) (js_sub (timestamp (ticks 16 i)) (Num 0))) \<longrightarrow>
               (\<exists>tr mv. move_run ?p ?q NegZero (Num 0) (ticks 16) m = (tr, Pending mv) \<and>
                  Complete \<notin> set tr)"
    by blast
  with g have c2: "\<exists>tr mv. move_run ?p ?q NegZero (Num 0) (ticks 16) 3 = (tr, Pending mv) \<and>
                  Complete \<notin> set tr" by blast
  note w3 = moveBetweenPoints_nonpositive[OF ni, of ?p ?q 0 "ticks 16" 3]
  from w3 have "\<forall>m. (\<forall>i<m. \<exists>e. js_sub (timestamp (ticks 16 i)) (Num 0) = Num e \<or>
                            js_sub (timestamp (ticks 16 i)) (Num 0) = NegZero) \<longrightarrow>
               (\<exists>tr mv. move_run ?p ?q NegInf (Num 0) (ticks 16) m = (tr, Pending mv) \<and>
                  Complete \<notin> set tr)"
    by blast
  with e have c3: "\<exists>tr mv. move_run ?p ?q NegInf (Num 0) (ticks 16) 3 = (tr, Pending mv) \<and>
                  Complete \<notin> set tr" by blast
  show ?thesis by (intro conjI z t s n3 a b m m' f0 f1 f2 c nz g0 g1 g2 c2 ni e0 e1 e2 c3)
qed

text \<open>
  A move of duration \<open>- 1\<close>, and a move whose duration is the negative zero, under a host
  that delivers a frame every 16 time units: neither ever comes to an end.
\<close>

theorem moveBetweenPoints_negative_counterexample:
  "js_le (Num (- 1)) (Num 0) \<and> js_le NegZero (Num 0) \<and>
   \<not> (\<exists>n. snd (move_run \<lparr>px = Num 0, py = Num 0\<rparr> \<lparr>px = Num 10, py = Num 0\<rparr>
                (Num (- 1)) (Num 0) (ticks 16) n) = Idle) \<and>
   \<not> (\<exists>n. snd (move_run \<lparr>px = Num 0, py = Num 0\<rparr> \<lparr>px = Num 10, py = Num 0\<rparr>
                NegZero (Num 0) (ticks 16) n) = Idle)"
proof (intro conjI notI)
  show "js_le (Num (- 1)) (Num 0)" and "js_le NegZero (Num 0)" by (simp_all add: js_le_def)
next
  assume "\<exists>n. snd (move_run \<lparr>px = Num 0, py = Num 0\<rparr> \<lparr>px = Num 10, py = Num 0\<rparr>
                (Num (- 1)) (Num 0) (ticks 16) n) = Idle"
  then obtain n where
    n: "snd (move_run \<lparr>px = Num 0, py = Num 0\<rparr> \<lparr>px = Num 10, py = Num 0\<rparr>
                (Num (- 1)) (Num 0) (ticks 16) n) = Idle" ..
  have neg: "(- 1 :: rat) < 0" by simp
  have "\<forall>i<n. \<exists>ti. timestamp (ticks 16 i) = Num ti \<and> 0 \<le> ti" by (simp add: ticks_def)
  from move_run_negative[OF neg this] obtain tr m where
    "move_run \<lparr>px = Num 0, py = Num 0\<rparr> \<lparr>px = Num 10, py = Num 0\<rparr>
       (Num (- 1)) (Num 0) (ticks 16) n = (tr, Pending m)" by blast
  with n show False by simp
next
  assume "\<exists>n. snd (move_run \<lparr>px = Num 0, py = Num 0\<rparr> \<lparr>px = Num 10, py = Num 0\<rparr>
                NegZero (Num 0) (ticks 16) n) = Idle"
  then obtain n where
    n: "snd (move_run \<lparr>px = Num 0, py = Num 0\<rparr> \<lparr>px = Num 10, py = Num 0\<rparr>
                NegZero (Num 0) (ticks 16) n) = Idle" ..
  have "\<forall>i<n. js_lt (progress_at (timestamp (ticks 16 i)) (Num 0) NegZero) (Num 1)"
  proof (intro allI impI)
    fix i
    have p: "(0::rat) \<le> of_nat (i + 1) * 16" by simp
    have q: "(16::rat) \<le> of_nat (i + 1) * 16" by simp
    have r16: "round_rat 16 = 16" by code_simp
    from round_rat_mono[OF q] r16 have pos: "0 < round_rat (of_nat (i + 1) * 16)" by simp
    from to_double_nonneg[OF p] pos
    have "js_lt (Num 0) (to_double (of_nat (i + 1) * 16 - 0))" by auto
    then have "js_lt (Num 0) (js_sub (timestamp (ticks 16 i)) (Num 0))"
      unfolding ticks_def by simp
    then show "js_lt (progress_at (timestamp (ticks 16 i)) (Num 0) NegZero) (Num 1)"
      by (rule progress_negzero)
  qed
  from move_run_never[OF this] obtain tr m where
    "move_run \<lparr>px = Num 0, py = Num 0\<rparr> \<lparr>px = Num 10, py = Num 0\<rparr>
       NegZero (Num 0) (ticks 16) n = (tr, Pending m)" by blast
  with n show False by simp
qed

section \<open>Walks: every segment comes to an end\<close>

lemma steady_shift: "steady sched \<Longrightarrow> steady (\<lambda>i. sched (k + i))"
  unfolding steady_def
proof (intro conjI allI)
  fix i assume a: "(\<forall>i. \<exists>ts now. timestamp (sched i) = Num ts \<and> performance_now (sched i) = Num now) \<and>
     (\<forall>T i. \<exists>j\<ge>i. \<exists>ts. timestamp (sched j) = Num ts \<and> T \<le> ts)"
  then show "\<exists>ts now. timestamp (sched (k + i)) = Num ts \<and> performance_now (sched (k + i)) = Num now"
    by blast
next
  fix T i assume a: "(\<forall>i. \<exists>ts now. timestamp (sched i) = Num ts \<and> performance_now (sched i) = Num now) \<and>
     (\<forall>T i. \<exists>j\<ge>i. \<exists>ts. timestamp (sched j) = Num ts \<and> T \<le> ts)"
  then obtain j ts where j: "k + i \<le> j" "timestamp (sched j) = Num ts" "T \<le> ts" by blast
  then have "i \<le> j - k" "timestamp (sched (k + (j - k))) = Num ts" by simp_all
  with j(3) show "\<exists>j\<ge>i. \<exists>ts. timestamp (sched (k + j)) = Num ts \<and> T \<le> ts" by blast
qed

lemma steady_ticks:
  assumes "0 < dt"
  shows "steady (ticks dt)"
  unfolding steady_def
proof (intro conjI allI)
  fix i show "\<exists>ts now. timestamp (ticks dt i) = Num ts \<and> performance_now (ticks dt i) = Num now"
    by (simp add: ticks_def)
next
  fix T :: rat and i :: nat
  obtain n :: nat where n: "T / dt \<le> of_nat n" using real_arch_simple by blast
  have "T \<le> of_nat n * dt" using n assms by (simp add: field_simps)
  also have "\<dots> \<le> of_nat (max i n + 1) * dt" using assms by simp
  finally have "T \<le> of_nat (max i n + 1) * dt" .
  then show "\<exists>j\<ge>i. \<exists>ts. timestamp (ticks dt j) = Num ts \<and> T \<le> ts"
    by (intro exI[of _ "max i n"]) (simp add: ticks_def)
qed

lemma host_snd: "snd (host step (tr, s) sched n) = snd (host step ([], s) sched n)"
  by (induction n) (simp_all add: case_prod_beta)

lemma host_state:
  "snd (host step init sched (Suc n)) = snd (step (snd (host step init sched n)) (sched n))"
  by (simp add: case_prod_beta)

lemma walk_frame_again:
  assumes "js_lt (progress_at (timestamp f) (startTime m) (duration m)) (Num 1)"
  shows "snd (walk_frame sc scc cc h (Pending (w, m)) f) = Pending (w, m\<lparr>stepIndex := Suc (stepIndex m)\<rparr>)"
  using assms by (simp add: segment_frame_def animate_logged)

lemma walk_frame_done:
  assumes "\<not> js_lt (progress_at (timestamp f) (startTime m) (duration m)) (Num 1)"
  shows "snd (walk_frame sc scc cc h (Pending (w, m)) f) =
           (case moveNextSegment h (performance_now f) (w\<lparr>currentSegment := Suc (currentSegment w)\<rparr>) of
              Again wm' \<Rightarrow> Pending wm' | Finished \<Rightarrow> Idle)"
  using assms by (simp add: segment_frame_def animate_logged split: outcome.splits)

lemma walk_running:
  assumes "\<forall>l<k. js_lt (progress_at (timestamp (sched l)) (startTime m) (duration m)) (Num 1)"
  shows "snd (host (walk_frame sc scc cc h) (tr, Pending (w, m)) sched k) =
           Pending (w, m\<lparr>stepIndex := stepIndex m + k\<rparr>)"
  using assms
proof (induction k)
  case 0
  show ?case by simp
next
  case (Suc k)
  then have ih: "snd (host (walk_frame sc scc cc h) (tr, Pending (w, m)) sched k) =
           Pending (w, m\<lparr>stepIndex := stepIndex m + k\<rparr>)"
    and lt: "js_lt (progress_at (timestamp (sched k)) (startTime m) (duration m)) (Num 1)"
    by simp_all
  show ?case unfolding host_state ih
    using walk_frame_again[of "sched k" "m\<lparr>stepIndex := stepIndex m + k\<rparr>" sc scc cc h w] lt
    by simp
qed

lemma walk_segment_ends:
  assumes "duration m = Num s" "startTime m = Num t" "0 \<le> s" "to_double s = Num s"
    and "timestamp (sched j) = Num tj" "t + s \<le> tj"
  shows "\<exists>k\<le>j. snd (host (walk_frame sc scc cc h) (tr, Pending (w, m)) sched (Suc k)) =
           (case moveNextSegment h (performance_now (sched k))
                   (w\<lparr>currentSegment := Suc (currentSegment w)\<rparr>) of
              Again wm' \<Rightarrow> Pending wm' | Finished \<Rightarrow> Idle)"
proof -
  let ?P = "\<lambda>l. \<not> js_lt (progress_at (timestamp (sched l)) (startTime m) (duration m)) (Num 1)"
  define k where "k = (LEAST l. ?P l)"
  have "?P j" using progress_done(1)[of s tj t] assms by simp
  then have Pk: "?P k" and kj: "k \<le> j" unfolding k_def by (rule LeastI, rule Least_le)
  have "\<forall>l<k. js_lt (progress_at (timestamp (sched l)) (startTime m) (duration m)) (Num 1)"
    unfolding k_def using not_less_Least by blast
  from walk_running[OF this] have
    "snd (host (walk_frame sc scc cc h) (tr, Pending (w, m)) sched k) =
       Pending (w, m\<lparr>stepIndex := stepIndex m + k\<rparr>)" .
  then have "snd (host (walk_frame sc scc cc h) (tr, Pending (w, m)) sched (Suc k)) =
           (case moveNextSegment h (performance_now (sched k))
                   (w\<lparr>currentSegment := Suc (currentSegment w)\<rparr>) of
              Again wm' \<Rightarrow> Pending wm' | Finished \<Rightarrow> Idle)"
    unfolding host_state
    using walk_frame_done[of "sched k" "m\<lparr>stepIndex := stepIndex m + k\<rparr>" sc scc cc h w] Pk
    by simp
  with kj show ?thesis by blast
qed

lemma walk_Idle: "host (walk_frame sc scc cc h) (tr, Idle) sched n = (tr, Idle)"
  by (rule host_stuck) simp

lemma walk_reaches_idle:
  assumes "steady sched" "0 \<le> s" "to_double s = Num s"
    and "segmentDuration w = Num s" "duration m = Num s" "startTime m = Num t"
    and "totalSegments w - currentSegment w = r"
  shows "\<exists>n. snd (host (walk_frame sc scc cc h) (tr, Pending (w, m)) sched n) = Idle"
  using assms
proof (induction r arbitrary: w m t sched tr)
  case 0
  from \<open>steady sched\<close> obtain j tj where j: "timestamp (sched j) = Num tj" "t + s \<le> tj"
    unfolding steady_def by blast
  from walk_segment_ends[of m s t sched j tj sc scc cc h tr w] 0(5,6,2,3) j obtain k where
    k: "snd (host (walk_frame sc scc cc h) (tr, Pending (w, m)) sched (Suc k)) =
           (case moveNextSegment h (performance_now (sched k))
                   (w\<lparr>currentSegment := Suc (currentSegment w)\<rparr>) of
              Again wm' \<Rightarrow> Pending wm' | Finished \<Rightarrow> Idle)" by blast
  have "moveNextSegment h (performance_now (sched k)) (w\<lparr>currentSegment := Suc (currentSegment w)\<rparr>) = Finished"
    using 0(7) by (simp add: moveNextSegment_def)
  with k show ?case by (intro exI[of _ "Suc k"]) simp
next
  case (Suc r)
  let ?F = "walk_frame sc scc cc h"
  from \<open>steady sched\<close> obtain j tj where j: "timestamp (sched j) = Num tj" "t + s \<le> tj"
    unfolding steady_def by blast
  from walk_segment_ends[of m s t sched j tj sc scc cc h tr w] Suc(6,7,3,4) j obtain k where
    k: "snd (host ?F (tr, Pending (w, m)) sched (Suc k)) =
           (case moveNextSegment h (performance_now (sched k))
                   (w\<lparr>currentSegment := Suc (currentSegment w)\<rparr>) of
              Again wm' \<Rightarrow> Pending wm' | Finished \<Rightarrow> Idle)" by blast
  let ?w = "w\<lparr>currentSegment := Suc (currentSegment w)\<rparr>"
  show ?case
  proof (cases "moveNextSegment h (performance_now (sched k)) ?w")
    case Finished
    with k show ?thesis by (intro exI[of _ "Suc k"]) simp
  next
    case (Again wm')
    obtain now where now: "performance_now (sched k) = Num now"
      using \<open>steady sched\<close> unfolding steady_def by blast
    obtain w' m' where wm': "wm' = (w', m')" by (cases wm')
    from Again wm' now have w': "w' = ?w" and m': "duration m' = Num s" "startTime m' = Num now"
      using Suc(5) by (auto simp: moveNextSegment_def moveBetweenPoints_def split: if_splits)
    obtain tr' where st: "host ?F (tr, Pending (w, m)) sched (Suc k) = (tr', Pending (w', m'))"
      using k Again wm' by (cases "host ?F (tr, Pending (w, m)) sched (Suc k)") simp
    have r: "totalSegments w' - currentSegment w' = r" using Suc(8) w' by simp
    have sd: "segmentDuration w' = Num s" using Suc(5) w' by simp
    from Suc.IH[OF steady_shift[OF \<open>steady sched\<close>, of "Suc k"] Suc(3,4) sd m' r, of tr']
    obtain n where "snd (host ?F (tr', Pending (w', m')) (\<lambda>i. sched (Suc k + i)) n) = Idle" by blast
    then have "snd (host ?F (tr, Pending (w, m)) sched (Suc k + n)) = Idle"
      unfolding host_add st .
    then show ?thesis by blast
  qed
qed

section \<open>Walks: the order of the calls\<close>

lemma step_indices_append [simp]:
  "step_indices s (xs @ ys) = step_indices s xs @ step_indices s ys"
  by (simp add: step_indices_def)

lemma step_segments_append [simp]:
  "step_segments (xs @ ys) = step_segments xs @ step_segments ys"
  by (simp add: step_segments_def)

lemma step_indices_simps [simp]:
  "step_indices s [] = []"
  "step_indices s (PathStep x y i s' # tr) = (if s' = s then i # step_indices s tr else step_indices s tr)"
  "step_indices s (SegmentComplete s' # tr) = step_indices s tr"
  "step_indices s (PathComplete # tr) = step_indices s tr"
  by (simp_all add: step_indices_def)

lemma step_segments_simps [simp]:
  "step_segments [] = []"
  "step_segments (PathStep x y i s # tr) = s # step_segments tr"
  "step_segments (SegmentComplete s' # tr) = step_segments tr"
  "step_segments (PathComplete # tr) = step_segments tr"
  by (simp_all add: step_segments_def)

lemma step_indices_absent:
  "s \<notin> set (step_segments tr) \<Longrightarrow> step_indices s tr = []"
proof (induction tr)
  case Nil
  show ?case by simp
next
  case (Cons c tr)
  then show ?case by (cases c) (auto split: if_splits)
qed

lemma snoc_split:
  "tr @ [e] = pre @ a # post \<longleftrightarrow>
     (post = [] \<and> pre = tr \<and> a = e) \<or> (\<exists>post'. post = post' @ [e] \<and> tr = pre @ a # post')"
  by (cases post rule: rev_cases) auto

lemma after_completion_Nil [simp]: "after_completion []"
  by (simp add: after_completion_def)

lemma after_completion_snoc:
  "after_completion (tr @ [e]) \<longleftrightarrow>
     after_completion tr \<and> (\<forall>x y k s. e = PathStep x y k (Suc s) \<longrightarrow> SegmentComplete s \<in> set tr)"
  unfolding after_completion_def snoc_split by blast

lemma completed_in_log:
  assumes "filter (\<lambda>c. \<not> is_step c) tr = map SegmentComplete [0..<c] @ rest" "s < c"
  shows "SegmentComplete s \<in> set tr"
proof -
  have "SegmentComplete s \<in> set (map SegmentComplete [0..<c] @ rest)" using assms(2) by simp
  then have "SegmentComplete s \<in> set (filter (\<lambda>c. \<not> is_step c) tr)" using assms(1) by simp
  then show ?thesis by simp
qed

lemma walk_frame_logged:
  "\<exists>x y. walk_frame (Some (\<lambda>x y i s. [PathStep x y i s])) (Some (\<lambda>s. [SegmentComplete s]))
            (Some [PathComplete]) h (Pending (w, m)) f =
     (if js_lt (progress_at (timestamp f) (startTime m) (duration m)) (Num 1)
      then ([PathStep x y (stepIndex m) (currentSegment w)],
            Pending (w, m\<lparr>stepIndex := Suc (stepIndex m)\<rparr>))
      else if totalSegments w \<le> Suc (currentSegment w)
      then ([PathStep x y (stepIndex m) (currentSegment w), SegmentComplete (currentSegment w),
             PathComplete], Idle)
      else ([PathStep x y (stepIndex m) (currentSegment w), SegmentComplete (currentSegment w)],
            Pending (w\<lparr>currentSegment := Suc (currentSegment w)\<rparr>,
                     moveBetweenPoints ((h ! walk_points w) ! Suc (currentSegment w))
                       ((h ! walk_points w) ! Suc (Suc (currentSegment w)))
                       (segmentDuration w) (performance_now f))))"
  by (simp add: segment_frame_def animate_logged moveNextSegment_def)

lemma walk_inv_step:
  assumes "walk_inv N tr (Pending (w, m))"
  shows "walk_inv N (tr @ [PathStep x y (stepIndex m) (currentSegment w)])
           (Pending (w, m\<lparr>stepIndex := Suc (stepIndex m)\<rparr>))"
proof -
  from assms have f: "filter (\<lambda>c. \<not> is_step c) tr = map SegmentComplete [0..<currentSegment w] @ []"
    by (simp add: walk_inv_def)
  have "\<forall>s. currentSegment w = Suc s \<longrightarrow> SegmentComplete s \<in> set tr"
    using completed_in_log[OF f] by simp
  with assms show ?thesis
    by (auto simp: walk_inv_def sorted_append after_completion_snoc)
qed

lemma walk_inv_next:
  assumes "walk_inv N tr (Pending (w, m))" "stepIndex m' = 0" "Suc (currentSegment w) < N"
  shows "walk_inv N (tr @ [PathStep x y (stepIndex m) (currentSegment w),
                          SegmentComplete (currentSegment w)])
           (Pending (w\<lparr>currentSegment := Suc (currentSegment w)\<rparr>, m'))"
proof -
  let ?c = "currentSegment w"
  let ?tr = "tr @ [PathStep x y (stepIndex m) ?c]"
  from walk_inv_step[OF assms(1), of x y]
  have inv: "walk_inv N ?tr (Pending (w, m\<lparr>stepIndex := Suc (stepIndex m)\<rparr>))" .
  have ac: "after_completion (?tr @ [SegmentComplete ?c])"
    using inv by (simp add: after_completion_snoc walk_inv_def del: append_assoc)
  have absent: "step_indices (Suc ?c) ?tr = []"
    using inv by (intro step_indices_absent) (auto simp: walk_inv_def)
  have prev: "\<forall>s<Suc ?c. \<exists>k>0. step_indices s ?tr = [0..<k]"
  proof (intro allI impI)
    fix s assume "s < Suc ?c"
    then consider "s < ?c" | "s = ?c" by linarith
    then show "\<exists>k>0. step_indices s ?tr = [0..<k]"
    proof cases
      case 1
      with inv show ?thesis by (simp add: walk_inv_def)
    next
      case 2
      with inv have "step_indices s ?tr = [0..<Suc (stepIndex m)]" by (simp add: walk_inv_def)
      then show ?thesis by blast
    qed
  qed
  have rest: "sorted (step_segments ?tr)" "totalSegments w = N"
    "filter (\<lambda>c. \<not> is_step c) ?tr = map SegmentComplete [0..<?c]"
    "\<forall>s\<in>set (step_segments ?tr). s \<le> ?c"
    using inv by (simp_all add: walk_inv_def)
  have "walk_inv N (?tr @ [SegmentComplete ?c])
           (Pending (w\<lparr>currentSegment := Suc ?c\<rparr>, m'))"
    unfolding walk_inv_def using ac absent prev rest assms(2,3)
    by (auto simp del: append_assoc simp: le_Suc_eq)
  then show ?thesis by simp
qed

lemma walk_inv_last:
  assumes "walk_inv N tr (Pending (w, m))" "N \<le> Suc (currentSegment w)"
  shows "walk_inv N (tr @ [PathStep x y (stepIndex m) (currentSegment w),
                          SegmentComplete (currentSegment w), PathComplete]) Idle"
proof -
  let ?c = "currentSegment w"
  let ?tr = "tr @ [PathStep x y (stepIndex m) ?c]"
  from walk_inv_step[OF assms(1), of x y]
  have inv: "walk_inv N ?tr (Pending (w, m\<lparr>stepIndex := Suc (stepIndex m)\<rparr>))" .
  from inv assms(2) have N: "N = Suc ?c" by (simp add: walk_inv_def)
  have ac: "after_completion ((?tr @ [SegmentComplete ?c]) @ [PathComplete])"
    using inv by (simp add: after_completion_snoc walk_inv_def del: append_assoc)
  have prev: "\<forall>s<Suc ?c. \<exists>k>0. step_indices s ?tr = [0..<k]"
  proof (intro allI impI)
    fix s assume "s < Suc ?c"
    then consider "s < ?c" | "s = ?c" by linarith
    then show "\<exists>k>0. step_indices s ?tr = [0..<k]"
    proof cases
      case 1
      with inv show ?thesis by (simp add: walk_inv_def)
    next
      case 2
      with inv have "step_indices s ?tr = [0..<Suc (stepIndex m)]" by (simp add: walk_inv_def)
      then show ?thesis by blast
    qed
  qed
  have rest: "sorted (step_segments ?tr)"
    "filter (\<lambda>c. \<not> is_step c) ?tr = map SegmentComplete [0..<?c]"
    "\<forall>s\<in>set (step_segments ?tr). s \<le> ?c"
    using inv by (simp_all add: walk_inv_def)
  have "walk_inv N ((?tr @ [SegmentComplete ?c]) @ [PathComplete]) Idle"
    unfolding walk_inv_def N using ac prev rest
    by (auto simp del: append_assoc simp: less_Suc_eq_le)
  then show ?thesis by simp
qed

lemma walk_inv_frame:
  assumes "walk_inv N tr st"
  shows "walk_inv N
           (tr @ fst (walk_frame (Some (\<lambda>x y i s. [PathStep x y i s]))
                        (Some (\<lambda>s. [SegmentComplete s])) (Some [PathComplete]) h st f))
           (snd (walk_frame (Some (\<lambda>x y i s. [PathStep x y i s]))
                   (Some (\<lambda>s. [SegmentComplete s])) (Some [PathComplete]) h st f))"
proof (cases st)
  case (Pending wm)
  obtain w m where wm: "wm = (w, m)" by (cases wm)
  from assms Pending wm have inv: "walk_inv N tr (Pending (w, m))" by simp
  then have N: "totalSegments w = N" by (simp add: walk_inv_def)
  from walk_frame_logged[of h w m f] obtain x y where
    fr: "walk_frame (Some (\<lambda>x y i s. [PathStep x y i s])) (Some (\<lambda>s. [SegmentComplete s]))
            (Some [PathComplete]) h (Pending (w, m)) f =
     (if js_lt (progress_at (timestamp f) (startTime m) (duration m)) (Num 1)
      then ([PathStep x y (stepIndex m) (currentSegment w)],
            Pending (w, m\<lparr>stepIndex := Suc (stepIndex m)\<rparr>))
      else if totalSegments w \<le> Suc (currentSegment w)
      then ([PathStep x y (stepIndex m) (currentSegment w), SegmentComplete (currentSegment w),
             PathComplete], Idle)
      else ([PathStep x y (stepIndex m) (currentSegment w), SegmentComplete (currentSegment w)],
            Pending (w\<lparr>currentSegment := Suc (currentSegment w)\<rparr>,
                     moveBetweenPoints ((h ! walk_points w) ! Suc (currentSegment w))
                       ((h ! walk_points w) ! Suc (Suc (currentSegment w)))
                       (segmentDuration w) (performance_now f))))" by blast
  show ?thesis
    unfolding Pending wm fr
    using walk_inv_step[OF inv, of x y] walk_inv_last[OF inv, of x y]
      walk_inv_next[OF inv, of "moveBetweenPoints ((h ! walk_points w) ! Suc (currentSegment w))
                       ((h ! walk_points w) ! Suc (Suc (currentSegment w)))
                       (segmentDuration w) (performance_now f)" x y] N
    by (simp add: moveBetweenPoints_def)
next
  case Idle
  with assms show ?thesis by simp
next
  case Overflow
  with assms show ?thesis by (simp add: walk_inv_def)
qed

section \<open>Walks: completion of the segments and step indices\<close>

lemma walk_start_long:
  assumes "2 \<le> length (h ! a)"
  shows "walk_start cc h (Some a) d now =
           ([], Pending (\<lparr>walk_points = a,
                          segmentDuration = js_div d (Num (of_nat (length (h ! a) - 1))),
                          totalSegments = length (h ! a) - 1, currentSegment = 0\<rparr>,
                        moveBetweenPoints ((h ! a) ! 0) ((h ! a) ! 1)
                          (js_div d (Num (of_nat (length (h ! a) - 1)))) now))"
  using assms by (simp add: walk_start_def moveAlongPath_def moveNextSegment_def)

lemma walk_run_inv:
  assumes "2 \<le> length (h ! a)"
  shows "walk_inv (length (h ! a) - 1) (fst (walk_run h (Some a) d now sched n))
           (snd (walk_run h (Some a) d now sched n))"
proof -
  let ?N = "length (h ! a) - 1"
  let ?P = "\<lambda>(tr, st). walk_inv ?N tr st"
  have "?P (walk_run h (Some a) d now sched n)"
    unfolding walk_run_def
  proof (rule host_invariant2)
    show "?P (walk_start (Some [PathComplete]) h (Some a) d now)"
      unfolding walk_start_long[OF assms] using assms
      by (simp add: walk_inv_def moveBetweenPoints_def)
  next
    fix tr st f
    assume "?P (tr, st)"
    then show "?P (tr @ fst (walk_frame (Some (\<lambda>x y i s. [PathStep x y i s]))
                        (Some (\<lambda>s. [SegmentComplete s])) (Some [PathComplete]) h st f),
                   snd (walk_frame (Some (\<lambda>x y i s. [PathStep x y i s]))
                        (Some (\<lambda>s. [SegmentComplete s])) (Some [PathComplete]) h st f))"
      using walk_inv_frame by simp
  qed
  then show ?thesis by (simp add: case_prod_beta)
qed

lemma walk_run_ends:
  assumes "2 \<le> length (h ! a)" "0 < d" "to_double d = Num d" "steady sched"
  shows "\<exists>n. snd (host (walk_frame sc scc cc h) (walk_start cc h (Some a) (Num d) (Num t0)) sched n) = Idle"
proof -
  let ?N = "length (h ! a) - 1"
  from assms(1) have N: "0 < ?N" by simp
  from segment_duration[OF assms(2,3) N] obtain s where
    s: "js_div (Num d) (Num (of_nat ?N)) = Num s" "0 \<le> s" "to_double s = Num s" by blast
  let ?w = "\<lparr>walk_points = a, segmentDuration = Num s, totalSegments = ?N, currentSegment = 0\<rparr>"
  let ?m = "moveBetweenPoints ((h ! a) ! 0) ((h ! a) ! 1) (Num s) (Num t0)"
  have "\<exists>n. snd (host (walk_frame sc scc cc h) ([], Pending (?w, ?m)) sched n) = Idle"
    by (rule walk_reaches_idle[OF assms(4) s(2,3), of _ _ t0])
       (simp_all add: moveBetweenPoints_def)
  then show ?thesis unfolding walk_start_long[OF assms(1)] s(1) .
qed


lemma walk_run_order:
  assumes "2 \<le> length (h ! a)"
  shows "prefix (filter (\<lambda>c. \<not> is_step c) (fst (walk_run h (Some a) d now sched n)))
           (map SegmentComplete [0..<length (h ! a) - 1] @ [PathComplete])"
    and "PathComplete \<in> set (fst (walk_run h (Some a) d now sched n)) \<longleftrightarrow>
           snd (walk_run h (Some a) d now sched n) = Idle"
proof -
  define tr where "tr = fst (walk_run h (Some a) d now sched n)"
  define st where "st = snd (walk_run h (Some a) d now sched n)"
  define N where "N = length (h ! a) - 1"
  have inv: "walk_inv N tr st"
    unfolding tr_def st_def N_def by (rule walk_run_inv[OF assms])
  have "prefix (filter (\<lambda>c. \<not> is_step c) tr) (map SegmentComplete [0..<N] @ [PathComplete]) \<and>
        (PathComplete \<in> set tr \<longleftrightarrow> st = Idle)"
  proof (cases st)
    case (Pending wm)
    obtain w m where wm: "wm = (w, m)" by (cases wm)
    from inv Pending wm have c: "currentSegment w < N"
      and fl: "filter (\<lambda>c. \<not> is_step c) tr = map SegmentComplete [0..<currentSegment w]"
      by (simp_all add: walk_inv_def)
    have "[0..<N] = [0..<currentSegment w] @ [currentSegment w..<N]"
      using c by (metis le_add_diff_inverse less_imp_le_nat upt_add_eq_append zero_le)
    then have p: "prefix (filter (\<lambda>c. \<not> is_step c) tr)
                    (map SegmentComplete [0..<N] @ [PathComplete])"
      unfolding fl by simp
    have "PathComplete \<notin> set (filter (\<lambda>c. \<not> is_step c) tr)" unfolding fl by auto
    then have "PathComplete \<notin> set tr" by simp
    with p Pending show ?thesis by simp
  next
    case Idle
    from inv Idle have
      fl: "filter (\<lambda>c. \<not> is_step c) tr = map SegmentComplete [0..<N] @ [PathComplete]"
      by (simp add: walk_inv_def)
    then have "PathComplete \<in> set (filter (\<lambda>c. \<not> is_step c) tr)" by simp
    then have "PathComplete \<in> set tr" by simp
    with fl Idle show ?thesis by simp
  next
    case Overflow
    with inv show ?thesis by (simp add: walk_inv_def)
  qed
  then show "prefix (filter (\<lambda>c. \<not> is_step c) (fst (walk_run h (Some a) d now sched n)))
           (map SegmentComplete [0..<length (h ! a) - 1] @ [PathComplete])"
    and "PathComplete \<in> set (fst (walk_run h (Some a) d now sched n)) \<longleftrightarrow>
           snd (walk_run h (Some a) d now sched n) = Idle"
    unfolding tr_def st_def N_def by blast+
qed

lemma walk_run_stays:
  assumes "snd (walk_run h pts d now sched n) = Idle" "n \<le> m"
  shows "walk_run h pts d now sched m = walk_run h pts d now sched n"
proof -
  have idle: "\<And>f. walk_frame (Some (\<lambda>x y i s. [PathStep x y i s]))
             (Some (\<lambda>s. [SegmentComplete s])) (Some [PathComplete]) h Idle f = ([], Idle)"
    by simp
  have run: "walk_run h pts d now sched n = (fst (walk_run h pts d now sched n), Idle)"
    using assms(1) by (simp add: prod_eq_iff)
  have "walk_run h pts d now sched m = (fst (walk_run h pts d now sched n), Idle)"
    unfolding walk_run_def by (rule host_stays[OF idle run[unfolded walk_run_def] assms(2)])
  with run show ?thesis by simp
qed

lemma walk_run_grows:
  assumes "m \<le> n"
  shows "prefix (fst (walk_run h pts d now sched m)) (fst (walk_run h pts d now sched n))"
proof -
  from assms obtain k where k: "n = m + k" using le_Suc_ex by blast
  show ?thesis unfolding k walk_run_def by (rule host_prefix)
qed





text \<open>
  C8. On an array of at least two points, after any number of frames: the step indices of the
  steps of each segment, in the order of the calls, are \<open>0, 1, ..., k - 1\<close> for some \<open>k\<close>; the
  segment indices of the steps never decrease along the log, so that the steps of a segment
  are one block and the count starts again from 0 with the next segment; and a segment whose
  completion is in the log has at least one step.
\<close>

theorem moveAlongPath_step_index:
  assumes "2 \<le> length (h ! a)"
  shows "(\<forall>s. \<exists>k. step_indices s (fst (walk_run h (Some a) d now sched n)) = [0..<k]) \<and>
         sorted (step_segments (fst (walk_run h (Some a) d now sched n))) \<and>
         (\<forall>s. SegmentComplete s \<in> set (fst (walk_run h (Some a) d now sched n)) \<longrightarrow>
            step_indices s (fst (walk_run h (Some a) d now sched n)) \<noteq> [])"
proof -
  define tr where "tr = fst (walk_run h (Some a) d now sched n)"
  define st where "st = snd (walk_run h (Some a) d now sched n)"
  define N where "N = length (h ! a) - 1"
  have inv: "walk_inv N tr st"
    unfolding tr_def st_def N_def by (rule walk_run_inv[OF assms])
  have "(\<forall>s. \<exists>k. step_indices s tr = [0..<k]) \<and> sorted (step_segments tr) \<and>
        (\<forall>s. SegmentComplete s \<in> set tr \<longrightarrow> step_indices s tr \<noteq> [])"
  proof (cases st)
    case (Pending wm)
    obtain w m where wm: "wm = (w, m)" by (cases wm)
    let ?c = "currentSegment w"
    from inv Pending wm have
      srt: "sorted (step_segments tr)"
      and fl: "filter (\<lambda>c. \<not> is_step c) tr = map SegmentComplete [0..<?c]"
      and le: "\<forall>s\<in>set (step_segments tr). s \<le> ?c"
      and cur: "step_indices ?c tr = [0..<stepIndex m]"
      and prev: "\<forall>s<?c. \<exists>k>0. step_indices s tr = [0..<k]"
      by (simp_all add: walk_inv_def)
    have a: "\<forall>s. \<exists>k. step_indices s tr = [0..<k]"
    proof
      fix s
      consider "s < ?c" | "s = ?c" | "?c < s" by linarith
      then show "\<exists>k. step_indices s tr = [0..<k]"
      proof cases
        case 1 with prev show ?thesis by blast
      next
        case 2 with cur show ?thesis by blast
      next
        case 3
        with le have "s \<notin> set (step_segments tr)" by auto
        from step_indices_absent[OF this] show ?thesis by (intro exI[of _ 0]) simp
      qed
    qed
    have b: "\<forall>s. SegmentComplete s \<in> set tr \<longrightarrow> step_indices s tr \<noteq> []"
    proof (intro allI impI)
      fix s assume "SegmentComplete s \<in> set tr"
      then have "SegmentComplete s \<in> set (filter (\<lambda>c. \<not> is_step c) tr)" by simp
      then have "s < ?c" unfolding fl by auto
      with prev obtain k where "0 < k" "step_indices s tr = [0..<k]" by blast
      then show "step_indices s tr \<noteq> []" by simp
    qed
    from a srt b show ?thesis by blast
  next
    case Idle
    from inv Idle have
      srt: "sorted (step_segments tr)"
      and fl: "filter (\<lambda>c. \<not> is_step c) tr = map SegmentComplete [0..<N] @ [PathComplete]"
      and le: "\<forall>s\<in>set (step_segments tr). s < N"
      and prev: "\<forall>s<N. \<exists>k>0. step_indices s tr = [0..<k]"
      by (simp_all add: walk_inv_def)
    have a: "\<forall>s. \<exists>k. step_indices s tr = [0..<k]"
    proof
      fix s
      show "\<exists>k. step_indices s tr = [0..<k]"
      proof (cases "s < N")
        case True with prev show ?thesis by blast
      next
        case False
        with le have "s \<notin> set (step_segments tr)" by auto
        from step_indices_absent[OF this] show ?thesis by (intro exI[of _ 0]) simp
      qed
    qed
    have b: "\<forall>s. SegmentComplete s \<in> set tr \<longrightarrow> step_indices s tr \<noteq> []"
    proof (intro allI impI)
      fix s assume "SegmentComplete s \<in> set tr"
      then have "SegmentComplete s \<in> set (filter (\<lambda>c. \<not> is_step c) tr)" by simp
      then have "s < N" unfolding fl by auto
      with prev obtain k where "0 < k" "step_indices s tr = [0..<k]" by blast
      then show "step_indices s tr \<noteq> []" by simp
    qed
    from a srt b show ?thesis by blast
  next
    case Overflow
    with inv show ?thesis by (simp add: walk_inv_def)
  qed
  then show ?thesis unfolding tr_def .
qed

theorem moveAlongPath_step_index_witness:
  "2 \<le> length ([[\<lparr>px = Num 0, py = Num 0\<rparr>, \<lparr>px = Num 100, py = Num 0\<rparr>,
                     \<lparr>px = Num 100, py = Num 100\<rparr>]] ! 0) \<and>
   (\<forall>s. \<exists>k. step_indices s
             (fst (walk_run [[\<lparr>px = Num 0, py = Num 0\<rparr>, \<lparr>px = Num 100, py = Num 0\<rparr>,
                              \<lparr>px = Num 100, py = Num 100\<rparr>]] (Some 0) (Num 1000) (Num 0)
                     (ticks 500) 1)) = [0..<k]) \<and>
   sorted (step_segments
             (fst (walk_run [[\<lparr>px = Num 0, py = Num 0\<rparr>, \<lparr>px = Num 100, py = Num 0\<rparr>,
                              \<lparr>px = Num 100, py = Num 100\<rparr>]] (Some 0) (Num 1000) (Num 0)
                     (ticks 500) 1))) \<and>
   SegmentComplete 0 \<in> set
             (fst (walk_run [[\<lparr>px = Num 0, py = Num 0\<rparr>, \<lparr>px = Num 100, py = Num 0\<rparr>,
                              \<lparr>px = Num 100, py = Num 100\<rparr>]] (Some 0) (Num 1000) (Num 0)
                     (ticks 500) 1)) \<and>
   step_indices 0
             (fst (walk_run [[\<lparr>px = Num 0, py = Num 0\<rparr>, \<lparr>px = Num 100, py = Num 0\<rparr>,
                              \<lparr>px = Num 100, py = Num 100\<rparr>]] (Some 0) (Num 1000) (Num 0)
                     (ticks 500) 1)) \<noteq> []"
proof -
  let ?h = "[[\<lparr>px = Num 0, py = Num 0\<rparr>, \<lparr>px = Num 100, py = Num 0\<rparr>,
              \<lparr>px = Num 100, py = Num 100\<rparr>]]"
  let ?tr = "fst (walk_run ?h (Some 0) (Num 1000) (Num 0) (ticks 500) 1)"
  have l: "2 \<le> length (?h ! 0)" by simp
  have run: "?tr = [PathStep (Num 100) (Num 0) 0 0, SegmentComplete 0]" by code_simp
  have m: "SegmentComplete 0 \<in> set ?tr" unfolding run by simp
  note w = moveAlongPath_step_index[OF l, of "Num 1000" "Num 0" "ticks 500" 1]
  from w have a: "\<forall>s. \<exists>k. step_indices s ?tr = [0..<k]" by (rule conjunct1)
  from w have b: "sorted (step_segments ?tr)" by (rule conjunct1[OF conjunct2])
  from w have "\<forall>s. SegmentComplete s \<in> set ?tr \<longrightarrow> step_indices s ?tr \<noteq> []"
    by (rule conjunct2[OF conjunct2])
  then have "SegmentComplete 0 \<in> set ?tr \<longrightarrow> step_indices 0 ?tr \<noteq> []" by (rule spec)
  from this m have c: "step_indices 0 ?tr \<noteq> []" by (rule mp)
  show ?thesis by (intro conjI l a b m c)
qed

section \<open>The player: one traversal\<close>

lemma walk_never_overflows:
  assumes "st \<noteq> Overflow"
  shows "snd (walk_frame sc scc cc h st f) \<noteq> Overflow"
proof (cases st)
  case (Pending wm)
  then show ?thesis
    by (cases "segment_frame sc scc h wm f"; cases "snd (segment_frame sc scc h wm f)") auto
qed (use assms in simp_all)

lemma walk_pending_before:
  assumes "snd (host (walk_frame sc scc cc h) (tr, Pending wm) sched (Suc n)) = Pending wm'"
  shows "\<exists>wm''. snd (host (walk_frame sc scc cc h) (tr, Pending wm) sched n) = Pending wm''"
proof (cases "snd (host (walk_frame sc scc cc h) (tr, Pending wm) sched n)")
  case (Pending x)
  then show ?thesis by blast
next
  case Idle
  with assms show ?thesis unfolding host_state by simp
next
  case Overflow
  with assms show ?thesis unfolding host_state by simp
qed

lemma follow_frame_running:
  assumes "walk_frame (Some (\<lambda>x y i s. upd x y i s (loopCount fo) (currentDirection fo))) None None
             h (Pending wm) f = (calls, Pending wm')"
  shows "follow_frame upd d fcc loop yoyo (h, Pending (fo, wm)) f = (calls, h, Pending (fo, wm'))"
  using assms by (auto split: prod.splits outcome.splits)

lemma follow_frame_turning:
  assumes "walk_frame (Some (\<lambda>x y i s. upd x y i s (loopCount fo) (currentDirection fo))) None None
             h (Pending wm) f = (calls, Idle)"
  shows "follow_frame upd d fcc loop yoyo (h, Pending (fo, wm)) f =
           (calls @ fst (traversal_complete d fcc loop yoyo h (performance_now f) fo),
            snd (traversal_complete d fcc loop yoyo h (performance_now f) fo))"
  using assms by (auto split: prod.splits outcome.splits)

lemma follow_until:
  assumes "host (walk_frame (Some (\<lambda>x y i s. upd x y i s (loopCount fo) (currentDirection fo)))
                  None None h) ([], Pending wm) sched n = (calls, Pending wm')"
  shows "host (follow_frame upd d fcc loop yoyo) (tr, h, Pending (fo, wm)) sched n =
           (tr @ calls, h, Pending (fo, wm'))"
  using assms
proof (induction n arbitrary: calls wm')
  case 0
  then show ?case by simp
next
  case (Suc n)
  let ?W = "host (walk_frame (Some (\<lambda>x y i s. upd x y i s (loopCount fo) (currentDirection fo)))
                  None None h) ([], Pending wm) sched"
  from Suc.prems have "snd (?W (Suc n)) = Pending wm'" by simp
  from walk_pending_before[OF this] obtain wm'' where "snd (?W n) = Pending wm''" by blast
  then obtain c0 where w: "?W n = (c0, Pending wm'')" by (cases "?W n") simp
  obtain c1 t1 where f: "walk_frame (Some (\<lambda>x y i s. upd x y i s (loopCount fo) (currentDirection fo)))
                  None None h (Pending wm'') (sched n) = (c1, t1)"
    by (cases "walk_frame (Some (\<lambda>x y i s. upd x y i s (loopCount fo) (currentDirection fo)))
                  None None h (Pending wm'') (sched n)")
  from Suc.prems w f have eq: "calls = c0 @ c1" "t1 = Pending wm'" by simp_all
  from Suc.IH[OF w]
    follow_frame_running[where upd = upd and fo = fo, OF f[unfolded eq(2)], of d fcc loop yoyo] eq
  show ?case by simp
qed

lemma follow_turn:
  assumes "host (walk_frame (Some (\<lambda>x y i s. upd x y i s (loopCount fo) (currentDirection fo)))
                  None None h) ([], Pending wm) sched n = (calls, Pending wm')"
    and "walk_frame (Some (\<lambda>x y i s. upd x y i s (loopCount fo) (currentDirection fo))) None None
             h (Pending wm') (sched n) = (calls', Idle)"
  shows "host (follow_frame upd d fcc loop yoyo) (tr, h, Pending (fo, wm)) sched (Suc n) =
           (tr @ calls @ calls' @
              fst (traversal_complete d fcc loop yoyo h (performance_now (sched n)) fo),
            snd (traversal_complete d fcc loop yoyo h (performance_now (sched n)) fo))"
  using follow_until[where upd = upd and fo = fo, OF assms(1), of d fcc loop yoyo tr]
    follow_frame_turning[where upd = upd and fo = fo, OF assms(2), of d fcc loop yoyo]
  by simp

lemma walk_first_idle:
  assumes "snd (host (walk_frame sc scc cc h) ([], Pending wm) sched n) = Idle"
  shows "\<exists>k calls wm' calls'. k < n \<and>
           host (walk_frame sc scc cc h) ([], Pending wm) sched k = (calls, Pending wm') \<and>
           walk_frame sc scc cc h (Pending wm') (sched k) = (calls', Idle)"
proof -
  let ?W = "host (walk_frame sc scc cc h) ([], Pending wm) sched"
  let ?P = "\<lambda>i. snd (?W i) = Idle"
  define k where "k = (LEAST i. ?P i)"
  from assms have Pk: "?P k" unfolding k_def by (rule LeastI)
  have "k \<noteq> 0" using Pk by (cases k) auto
  then obtain j where j: "k = Suc j" by (cases k) auto
  have kn: "k \<le> n" unfolding k_def using assms by (rule Least_le)
  have nj: "\<not> ?P j" using not_less_Least[of j ?P] j unfolding k_def by simp
  have "snd (?W j) \<noteq> Overflow"
  proof (induction j)
    case 0 show ?case by simp
  next
    case (Suc j)
    then show ?case unfolding host_state[of _ _ _ j] by (rule walk_never_overflows)
  qed
  with nj obtain wm' where "snd (?W j) = Pending wm'" by (cases "snd (?W j)") auto
  then obtain calls where w: "?W j = (calls, Pending wm')" by (cases "?W j") simp
  obtain calls' t where f: "walk_frame sc scc cc h (Pending wm') (sched j) = (calls', t)"
    by (cases "walk_frame sc scc cc h (Pending wm') (sched j)")
  from Pk j w f have "t = Idle" by simp
  with w f j kn show ?thesis by (intro exI[of _ j] exI[of _ calls] exI[of _ wm'] exI[of _ calls']) simp
qed

lemma followPath_start:
  assumes "2 \<le> length (h ! points p)"
  shows "followPath h (Some p) (Some upd) dir d fcc loop yoyo now =
           Inr ([], h @ [if dir = Forward then h ! points p else rev (h ! points p)],
                Pending (\<lparr>loopCount = 0, pathPoints = length h, currentDirection = dir\<rparr>,
                  \<lparr>walk_points = length h,
                   segmentDuration = js_div d (Num (of_nat (length (h ! points p) - 1))),
                   totalSegments = length (h ! points p) - 1, currentSegment = 0\<rparr>,
                  moveBetweenPoints
                    ((if dir = Forward then h ! points p else rev (h ! points p)) ! 0)
                    ((if dir = Forward then h ! points p else rev (h ! points p)) ! 1)
                    (js_div d (Num (of_nat (length (h ! points p) - 1)))) now))"
  using assms
  by (simp add: followPath_def executeAnimation_def moveAlongPath_def moveNextSegment_def)

lemma progress_terminal:
  assumes "\<not> js_lt (progress_at ts t0 d) (Num 1)"
  shows "progress_at ts t0 d = Num 1 \<or> progress_at ts t0 d = NaN"
  using assms unfolding progress_at_def
  by (cases "js_div (js_sub ts t0) d") (auto split: if_splits)

lemma walk_frame_exact:
  "walk_frame (Some (\<lambda>x y i s. [PathStep x y i s])) (Some (\<lambda>s. [SegmentComplete s]))
            (Some [PathComplete]) h (Pending (w, m)) f =
     (if js_lt (progress_at (timestamp f) (startTime m) (duration m)) (Num 1)
      then ([PathStep
               (calculateLinearInterpolation (px (startPoint m)) (px (endPoint m))
                  (progress_at (timestamp f) (startTime m) (duration m)))
               (calculateLinearInterpolation (py (startPoint m)) (py (endPoint m))
                  (progress_at (timestamp f) (startTime m) (duration m)))
               (stepIndex m) (currentSegment w)],
            Pending (w, m\<lparr>stepIndex := Suc (stepIndex m)\<rparr>))
      else if totalSegments w \<le> Suc (currentSegment w)
      then ([PathStep
               (calculateLinearInterpolation (px (startPoint m)) (px (endPoint m))
                  (progress_at (timestamp f) (startTime m) (duration m)))
               (calculateLinearInterpolation (py (startPoint m)) (py (endPoint m))
                  (progress_at (timestamp f) (startTime m) (duration m)))
               (stepIndex m) (currentSegment w),
             SegmentComplete (currentSegment w), PathComplete], Idle)
      else ([PathStep
               (calculateLinearInterpolation (px (startPoint m)) (px (endPoint m))
                  (progress_at (timestamp f) (startTime m) (duration m)))
               (calculateLinearInterpolation (py (startPoint m)) (py (endPoint m))
                  (progress_at (timestamp f) (startTime m) (duration m)))
               (stepIndex m) (currentSegment w),
             SegmentComplete (currentSegment w)],
            Pending (w\<lparr>currentSegment := Suc (currentSegment w)\<rparr>,
                     moveBetweenPoints ((h ! walk_points w) ! Suc (currentSegment w))
                       ((h ! walk_points w) ! Suc (Suc (currentSegment w)))
                       (segmentDuration w) (performance_now f))))"
  by (simp add: segment_frame_def animate_logged moveNextSegment_def)

text \<open>The last three calls of a walk that has come to an end.\<close>

lemma walk_run_final:
  assumes "2 \<le> length (h ! a)" "snd (walk_run h (Some a) d now sched n) = Idle"
  shows "\<exists>pre i pr. fst (walk_run h (Some a) d now sched n) =
           pre @ [PathStep
                    (calculateLinearInterpolation (px ((h ! a) ! (length (h ! a) - 2)))
                       (px ((h ! a) ! (length (h ! a) - 1))) pr)
                    (calculateLinearInterpolation (py ((h ! a) ! (length (h ! a) - 2)))
                       (py ((h ! a) ! (length (h ! a) - 1))) pr)
                    i (length (h ! a) - 2),
                  SegmentComplete (length (h ! a) - 2), PathComplete] \<and>
           (pr = Num 1 \<or> pr = NaN) \<and> PathComplete \<notin> set pre"
proof -
  let ?L = "length (h ! a)"
  let ?fin = "\<lambda>tr. \<exists>pre i pr. tr =
           pre @ [PathStep
                    (calculateLinearInterpolation (px ((h ! a) ! (?L - 2)))
                       (px ((h ! a) ! (?L - 1))) pr)
                    (calculateLinearInterpolation (py ((h ! a) ! (?L - 2)))
                       (py ((h ! a) ! (?L - 1))) pr)
                    i (?L - 2),
                  SegmentComplete (?L - 2), PathComplete] \<and>
           (pr = Num 1 \<or> pr = NaN) \<and> PathComplete \<notin> set pre"
  let ?P = "\<lambda>(tr, st :: (walker \<times> mover) task). case st of
              Pending (w, m) \<Rightarrow>
                walk_points w = a \<and> totalSegments w = ?L - 1 \<and> currentSegment w < ?L - 1 \<and>
                startPoint m = (h ! a) ! currentSegment w \<and>
                endPoint m = (h ! a) ! Suc (currentSegment w) \<and> PathComplete \<notin> set tr
            | Idle \<Rightarrow> ?fin tr
            | Overflow \<Rightarrow> False"
  have "?P (walk_run h (Some a) d now sched n)"
    unfolding walk_run_def
  proof (rule host_invariant2)
    show "?P (walk_start (Some [PathComplete]) h (Some a) d now)"
      unfolding walk_start_long[OF assms(1)] using assms(1)
      by (simp add: moveBetweenPoints_def)
  next
    fix tr and st :: "(walker \<times> mover) task" and f
    assume P: "?P (tr, st)"
    let ?F = "walk_frame (Some (\<lambda>x y i s. [PathStep x y i s]))
                (Some (\<lambda>s. [SegmentComplete s])) (Some [PathComplete]) h"
    show "?P (tr @ fst (?F st f), snd (?F st f))"
    proof (cases st)
      case (Pending wm)
      obtain w m where wm: "wm = (w, m)" by (cases wm)
      let ?pr = "progress_at (timestamp f) (startTime m) (duration m)"
      from P Pending wm have
        wp: "walk_points w = a" and ts: "totalSegments w = ?L - 1"
        and cs: "currentSegment w < ?L - 1"
        and sp: "startPoint m = (h ! a) ! currentSegment w"
        and ep: "endPoint m = (h ! a) ! Suc (currentSegment w)"
        and np: "PathComplete \<notin> set tr"
        by simp_all
      consider (running) "js_lt ?pr (Num 1)"
        | (ending) "\<not> js_lt ?pr (Num 1)" "totalSegments w \<le> Suc (currentSegment w)"
        | (onward) "\<not> js_lt ?pr (Num 1)" "\<not> totalSegments w \<le> Suc (currentSegment w)"
        by blast
      then show ?thesis
      proof cases
        case running
        then show ?thesis unfolding Pending wm walk_frame_exact
          using wp ts cs sp ep np by simp
      next
        case ending
        with ts cs have c: "currentSegment w = ?L - 2" by simp
        have s: "Suc (?L - 2) = ?L - 1" using assms(1) by simp
        from progress_terminal[OF ending(1)] have pr: "?pr = Num 1 \<or> ?pr = NaN" .
        have "?fin (tr @ [PathStep
               (calculateLinearInterpolation (px (startPoint m)) (px (endPoint m)) ?pr)
               (calculateLinearInterpolation (py (startPoint m)) (py (endPoint m)) ?pr)
               (stepIndex m) (currentSegment w),
             SegmentComplete (currentSegment w), PathComplete])"
          unfolding sp ep c s using pr np
          by (intro exI[of _ tr] exI[of _ "stepIndex m"] exI[of _ ?pr]) simp
        then show ?thesis unfolding Pending wm walk_frame_exact using ending by simp
      next
        case onward
        then show ?thesis unfolding Pending wm walk_frame_exact
          using wp ts cs sp ep np by (simp add: moveBetweenPoints_def)
      qed
    next
      case Idle
      with P show ?thesis by simp
    next
      case Overflow
      with P show ?thesis by simp
    qed
  qed
  with assms(2) show ?thesis by (simp add: case_prod_beta)
qed

lemma update_indices_follow_of:
  "update_indices s (concat (map (follow_of hc dir) tr)) = step_indices s tr"
proof (induction tr)
  case Nil
  show ?case by (simp add: update_indices_def step_indices_def)
next
  case (Cons c tr)
  then show ?case by (cases c) (simp_all add: update_indices_def step_indices_def)
qed

lemma follow_of_shape:
  assumes "c \<in> set (concat (map (follow_of hc dir) tr))"
  shows "(\<exists>x y i s. c = Update x y i s 0 dir) \<or> c = FollowComplete 1 \<and> PathComplete \<in> set tr"
  using assms
proof (induction tr)
  case Nil
  then show ?case by simp
next
  case (Cons e tr)
  then show ?case by (cases e) (auto split: if_splits)
qed

lemma follow_of_updates:
  assumes "PathComplete \<notin> set tr" "c \<in> set (concat (map (follow_of hc dir) tr))"
  shows "\<exists>x y i s. c = Update x y i s 0 dir"
  using follow_of_shape[OF assms(2)] assms(1) by blast

lemma follow_of_prefix:
  assumes "prefix xs ys"
  shows "prefix (concat (map (follow_of hc dir) xs)) (concat (map (follow_of hc dir) ys))"
proof -
  from assms obtain zs where "ys = xs @ zs" by (auto simp: prefix_def)
  then show ?thesis by simp
qed

text \<open>
  One frame of a player without \<open>loop\<close> is one frame of the walk over its working array.
\<close>

lemma follow_frame_once:
  assumes "loopCount fo = 0"
  shows "follow_frame (\<lambda>x y i s c dir. [Update x y i s c dir]) d
           (if hc then Some (\<lambda>c. [FollowComplete c]) else None) False yoyo
           (h, Pending (fo, wm)) f =
         (concat (map (follow_of hc (currentDirection fo))
            (fst (walk_frame (Some (\<lambda>x y i s. [PathStep x y i s]))
                    (Some (\<lambda>s. [SegmentComplete s])) (Some [PathComplete]) h (Pending wm) f))),
          h,
          case snd (walk_frame (Some (\<lambda>x y i s. [PathStep x y i s]))
                      (Some (\<lambda>s. [SegmentComplete s])) (Some [PathComplete]) h (Pending wm) f) of
            Pending wm' \<Rightarrow> Pending (fo, wm') | Idle \<Rightarrow> Idle | Overflow \<Rightarrow> Overflow)"
proof -
  obtain w m where wm: "wm = (w, m)" by (cases wm)
  show ?thesis unfolding wm walk_frame_exact using assms
    by (simp add: segment_frame_def animate_logged moveNextSegment_def traversal_complete_def)
qed

lemma follow_run_once:
  assumes "2 \<le> length (h ! points p)"
  shows "follow_run h (Some p) True dir d hc False yoyo now sched n =
           Inr (concat (map (follow_of hc dir)
                  (fst (walk_run (h @ [if dir = Forward then h ! points p else rev (h ! points p)])
                          (Some (length h)) d now sched n))),
                h @ [if dir = Forward then h ! points p else rev (h ! points p)],
                case snd (walk_run (h @ [if dir = Forward then h ! points p
                                         else rev (h ! points p)])
                            (Some (length h)) d now sched n) of
                  Pending wm \<Rightarrow>
                    Pending (\<lparr>loopCount = 0, pathPoints = length h, currentDirection = dir\<rparr>, wm)
                | Idle \<Rightarrow> Idle
                | Overflow \<Rightarrow> Overflow)"
proof -
  let ?W = "if dir = Forward then h ! points p else rev (h ! points p)"
  let ?h = "h @ [?W]"
  let ?fo = "\<lparr>loopCount = 0, pathPoints = length h, currentDirection = dir\<rparr>"
  let ?upd = "\<lambda>x y i s c dir. [Update x y i s c dir]"
  let ?fcc = "if hc then Some (\<lambda>c. [FollowComplete c]) else None"
  let ?F = "follow_frame ?upd d ?fcc False yoyo"
  let ?G = "walk_frame (Some (\<lambda>x y i s. [PathStep x y i s])) (Some (\<lambda>s. [SegmentComplete s]))
              (Some [PathComplete]) ?h"
  have la: "2 \<le> length (?h ! length h)" using assms by simp
  define wm where "wm = (\<lparr>walk_points = length h,
                   segmentDuration = js_div d (Num (of_nat (length (h ! points p) - 1))),
                   totalSegments = length (h ! points p) - 1, currentSegment = 0\<rparr>,
                  moveBetweenPoints (?W ! 0) (?W ! 1)
                    (js_div d (Num (of_nat (length (h ! points p) - 1)))) now)"
  have ws: "walk_start (Some [PathComplete]) ?h (Some (length h)) d now = ([], Pending wm)"
    unfolding walk_start_long[OF la] wm_def by simp
  have fp: "followPath h (Some p) (Some ?upd) dir d ?fcc False yoyo now =
              Inr ([], ?h, Pending (?fo, wm))"
    unfolding followPath_start[OF assms] wm_def by simp
  have run: "follow_run h (Some p) True dir d hc False yoyo now sched n =
               Inr (host ?F ([], ?h, Pending (?fo, wm)) sched n)"
    unfolding follow_run_def using fp by simp
  have sim: "host ?F ([], ?h, Pending (?fo, wm)) sched n =
               (concat (map (follow_of hc dir) (fst (host ?G ([], Pending wm) sched n))), ?h,
                case snd (host ?G ([], Pending wm) sched n) of
                  Pending wm' \<Rightarrow> Pending (?fo, wm') | Idle \<Rightarrow> Idle | Overflow \<Rightarrow> Overflow)"
  proof (induction n)
    case 0
    show ?case by simp
  next
    case (Suc n)
    obtain tr st where g: "host ?G ([], Pending wm) sched n = (tr, st)"
      by (cases "host ?G ([], Pending wm) sched n")
    show ?case
    proof (cases st)
      case (Pending wm')
      have l0: "loopCount ?fo = 0" by simp
      from follow_frame_once[OF l0, of d hc yoyo ?h wm' "sched n"]
      show ?thesis using Suc g Pending by (simp add: case_prod_beta)
    next
      case Idle
      then show ?thesis using Suc g by simp
    next
      case Overflow
      then show ?thesis using Suc g by simp
    qed
  qed
  show ?thesis unfolding run sim walk_run_def ws ..
qed

text \<open>
  C3. With an update callback, without \<open>loop\<close>, on a path of at least two points, whatever
  the duration and the host, after any number of frames: the log of the player is the log of
  the walk over its working array, where each step is a call of the update callback with the
  loop count 0 and the direction of the call, and the overall completion of the walk is a
  call of the completion callback with the loop count 1 when one was given; the player is
  registered as long as the walk is. So every call is such an update or a completion with
  the loop count 1, and as long as the player is registered the completion callback has not
  been called. When nothing is registered any more, the log is a list of such updates, the
  last of them the step of the last segment at progress 1 (or NaN), followed by the one
  call of the completion callback if there is one; every segment has reported its steps
  \<open>0, 1, ..., k - 1\<close> with \<open>k > 0\<close>; and the log stays as it is. The log of an earlier moment is
  an initial part of the log. With a positive binary64 duration, a finite start time and a
  steady host the player comes to an end.
\<close>

theorem followPath_once:
  assumes "points p < length h" and "2 \<le> length (h ! points p)"
  shows "\<exists>tr st.
      follow_run h (Some p) True dir d has_complete False yoyo now sched n =
        Inr (tr, h @ [if dir = Forward then h ! points p else rev (h ! points p)], st) \<and>
      tr = concat (map (follow_of has_complete dir)
             (fst (walk_run (h @ [if dir = Forward then h ! points p else rev (h ! points p)])
                     (Some (length h)) d now sched n))) \<and>
      (st = Idle \<longleftrightarrow>
         snd (walk_run (h @ [if dir = Forward then h ! points p else rev (h ! points p)])
                (Some (length h)) d now sched n) = Idle) \<and>
      (\<forall>c\<in>set tr. (\<exists>x y i s. c = Update x y i s 0 dir) \<or> c = FollowComplete 1) \<and>
      (st \<noteq> Idle \<longrightarrow>
         (\<exists>wm. st = Pending (\<lparr>loopCount = 0, pathPoints = length h, currentDirection = dir\<rparr>, wm)) \<and>
         (\<forall>c. FollowComplete c \<notin> set tr)) \<and>
      (st = Idle \<longrightarrow>
         (\<exists>ups i pr.
            tr = ups @
              [Update
                 (calculateLinearInterpolation
                    (px ((if dir = Forward then h ! points p else rev (h ! points p)) !
                         (length (h ! points p) - 2)))
                    (px ((if dir = Forward then h ! points p else rev (h ! points p)) !
                         (length (h ! points p) - 1))) pr)
                 (calculateLinearInterpolation
                    (py ((if dir = Forward then h ! points p else rev (h ! points p)) !
                         (length (h ! points p) - 2)))
                    (py ((if dir = Forward then h ! points p else rev (h ! points p)) !
                         (length (h ! points p) - 1))) pr)
                 i (length (h ! points p) - 2) 0 dir] @
              (if has_complete then [FollowComplete 1] else []) \<and>
            (pr = Num 1 \<or> pr = NaN) \<and>
            (\<forall>c\<in>set ups. \<exists>x y i s. c = Update x y i s 0 dir)) \<and>
         (\<forall>s<length (h ! points p) - 1. \<exists>k>0. update_indices s tr = [0..<k]) \<and>
         (\<forall>m\<ge>n. follow_run h (Some p) True dir d has_complete False yoyo now sched m =
            Inr (tr, h @ [if dir = Forward then h ! points p else rev (h ! points p)], Idle))) \<and>
      (\<forall>m\<le>n. \<exists>tr' st'.
         follow_run h (Some p) True dir d has_complete False yoyo now sched m = Inr (tr', st') \<and>
         prefix tr' tr) \<and>
      (\<forall>d' t0. d = Num d' \<and> now = Num t0 \<and> 0 < d' \<and> to_double d' = Num d' \<and> steady sched \<longrightarrow>
         (\<exists>n0. \<forall>m\<ge>n0. \<exists>tr' h'.
            follow_run h (Some p) True dir d has_complete False yoyo now sched m =
              Inr (tr', h', Idle)))"
proof -
  let ?W = "if dir = Forward then h ! points p else rev (h ! points p)"
  let ?h = "h @ [?W]"
  let ?fo = "\<lparr>loopCount = 0, pathPoints = length h, currentDirection = dir\<rparr>"
  let ?run = "follow_run h (Some p) True dir d has_complete False yoyo now sched"
  let ?wr = "walk_run ?h (Some (length h)) d now sched"
  let ?f = "follow_of has_complete dir"
  let ?lift = "\<lambda>st. case st of Pending wm \<Rightarrow> Pending (?fo, wm) | Idle \<Rightarrow> Idle
                               | Overflow \<Rightarrow> Overflow"
  define tr where "tr = concat (map ?f (fst (?wr n)))"
  define st where "st = ?lift (snd (?wr n))"
  have la: "2 \<le> length (?h ! length h)" using assms(2) by simp
  have arr: "?h ! length h = ?W" by simp
  have len: "length ?W = length (h ! points p)" by simp
  have sim: "?run m = Inr (concat (map ?f (fst (?wr m))), ?h, ?lift (snd (?wr m)))" for m
    by (rule follow_run_once[OF assms(2)])
  have inv: "walk_inv (length (h ! points p) - 1) (fst (?wr n)) (snd (?wr n))"
    using walk_run_inv[OF la, of d now sched n] unfolding arr len .
  have c1: "?run n = Inr (tr, ?h, st)" unfolding tr_def st_def by (rule sim)
  have c2: "tr = concat (map ?f (fst (?wr n)))" by (rule tr_def)
  have c3: "st = Idle \<longleftrightarrow> snd (?wr n) = Idle"
    unfolding st_def using inv by (cases "snd (?wr n)") (simp_all add: walk_inv_def)
  have c4: "\<forall>c\<in>set tr. (\<exists>x y i s. c = Update x y i s 0 dir) \<or> c = FollowComplete 1"
    unfolding tr_def using follow_of_shape by blast
  have c5: "st \<noteq> Idle \<longrightarrow> (\<exists>wm. st = Pending (?fo, wm)) \<and> (\<forall>c. FollowComplete c \<notin> set tr)"
  proof
    assume ni: "st \<noteq> Idle"
    with c3 have wni: "snd (?wr n) \<noteq> Idle" by simp
    with inv obtain wm where "snd (?wr n) = Pending wm"
      by (cases "snd (?wr n)") (simp_all add: walk_inv_def)
    then have a: "\<exists>wm. st = Pending (?fo, wm)" unfolding st_def by simp
    from wni walk_run_order(2)[OF la, of d now sched n]
    have "PathComplete \<notin> set (fst (?wr n))" by simp
    then have "\<forall>c. FollowComplete c \<notin> set tr"
      unfolding tr_def using follow_of_updates by blast
    with a show "(\<exists>wm. st = Pending (?fo, wm)) \<and> (\<forall>c. FollowComplete c \<notin> set tr)" ..
  qed
  have c6: "st = Idle \<longrightarrow>
         (\<exists>ups i pr.
            tr = ups @
              [Update
                 (calculateLinearInterpolation (px (?W ! (length (h ! points p) - 2)))
                    (px (?W ! (length (h ! points p) - 1))) pr)
                 (calculateLinearInterpolation (py (?W ! (length (h ! points p) - 2)))
                    (py (?W ! (length (h ! points p) - 1))) pr)
                 i (length (h ! points p) - 2) 0 dir] @
              (if has_complete then [FollowComplete 1] else []) \<and>
            (pr = Num 1 \<or> pr = NaN) \<and>
            (\<forall>c\<in>set ups. \<exists>x y i s. c = Update x y i s 0 dir)) \<and>
         (\<forall>s<length (h ! points p) - 1. \<exists>k>0. update_indices s tr = [0..<k]) \<and>
         (\<forall>m\<ge>n. ?run m = Inr (tr, ?h, Idle))"
  proof
    assume "st = Idle"
    with c3 have wi: "snd (?wr n) = Idle" by simp
    from walk_run_final[OF la wi] obtain pre i pr where
      fin: "fst (?wr n) =
           pre @ [PathStep
                    (calculateLinearInterpolation (px (?W ! (length (h ! points p) - 2)))
                       (px (?W ! (length (h ! points p) - 1))) pr)
                    (calculateLinearInterpolation (py (?W ! (length (h ! points p) - 2)))
                       (py (?W ! (length (h ! points p) - 1))) pr)
                    i (length (h ! points p) - 2),
                  SegmentComplete (length (h ! points p) - 2), PathComplete]"
      and pr: "pr = Num 1 \<or> pr = NaN" and np: "PathComplete \<notin> set pre"
      unfolding arr len by blast
    have t: "tr = concat (map ?f pre) @
              [Update
                 (calculateLinearInterpolation (px (?W ! (length (h ! points p) - 2)))
                    (px (?W ! (length (h ! points p) - 1))) pr)
                 (calculateLinearInterpolation (py (?W ! (length (h ! points p) - 2)))
                    (py (?W ! (length (h ! points p) - 1))) pr)
                 i (length (h ! points p) - 2) 0 dir] @
              (if has_complete then [FollowComplete 1] else [])"
      unfolding tr_def fin by simp
    have u: "\<forall>c\<in>set (concat (map ?f pre)). \<exists>x y i s. c = Update x y i s 0 dir"
      using follow_of_updates[OF np] by blast
    from t pr u have a: "\<exists>ups i pr.
            tr = ups @
              [Update
                 (calculateLinearInterpolation (px (?W ! (length (h ! points p) - 2)))
                    (px (?W ! (length (h ! points p) - 1))) pr)
                 (calculateLinearInterpolation (py (?W ! (length (h ! points p) - 2)))
                    (py (?W ! (length (h ! points p) - 1))) pr)
                 i (length (h ! points p) - 2) 0 dir] @
              (if has_complete then [FollowComplete 1] else []) \<and>
            (pr = Num 1 \<or> pr = NaN) \<and>
            (\<forall>c\<in>set ups. \<exists>x y i s. c = Update x y i s 0 dir)"
      by (intro exI[of _ "concat (map ?f pre)"] exI[of _ i] exI[of _ pr] conjI)
    from inv wi have "\<forall>s<length (h ! points p) - 1. \<exists>k>0. step_indices s (fst (?wr n)) = [0..<k]"
      by (simp add: walk_inv_def)
    then have b: "\<forall>s<length (h ! points p) - 1. \<exists>k>0. update_indices s tr = [0..<k]"
      unfolding tr_def update_indices_follow_of .
    have c: "\<forall>m\<ge>n. ?run m = Inr (tr, ?h, Idle)"
    proof (intro allI impI)
      fix m assume "n \<le> m"
      from walk_run_stays[OF wi this] have "?wr m = ?wr n" .
      then show "?run m = Inr (tr, ?h, Idle)" unfolding sim tr_def using wi by simp
    qed
    from a b c show "(\<exists>ups i pr.
            tr = ups @
              [Update
                 (calculateLinearInterpolation (px (?W ! (length (h ! points p) - 2)))
                    (px (?W ! (length (h ! points p) - 1))) pr)
                 (calculateLinearInterpolation (py (?W ! (length (h ! points p) - 2)))
                    (py (?W ! (length (h ! points p) - 1))) pr)
                 i (length (h ! points p) - 2) 0 dir] @
              (if has_complete then [FollowComplete 1] else []) \<and>
            (pr = Num 1 \<or> pr = NaN) \<and>
            (\<forall>c\<in>set ups. \<exists>x y i s. c = Update x y i s 0 dir)) \<and>
         (\<forall>s<length (h ! points p) - 1. \<exists>k>0. update_indices s tr = [0..<k]) \<and>
         (\<forall>m\<ge>n. ?run m = Inr (tr, ?h, Idle))"
      by (intro conjI)
  qed
  have c7: "\<forall>m\<le>n. \<exists>tr' st'. ?run m = Inr (tr', st') \<and> prefix tr' tr"
  proof (intro allI impI)
    fix m assume "m \<le> n"
    from follow_of_prefix[OF walk_run_grows[OF this]]
    have "prefix (concat (map ?f (fst (?wr m)))) tr" unfolding tr_def .
    then show "\<exists>tr' st'. ?run m = Inr (tr', st') \<and> prefix tr' tr"
      unfolding sim by blast
  qed
  have c8: "\<forall>d' t0. d = Num d' \<and> now = Num t0 \<and> 0 < d' \<and> to_double d' = Num d' \<and> steady sched \<longrightarrow>
         (\<exists>n0. \<forall>m\<ge>n0. \<exists>tr' h'. ?run m = Inr (tr', h', Idle))"
  proof (intro allI impI)
    fix d' t0
    assume hyp: "d = Num d' \<and> now = Num t0 \<and> 0 < d' \<and> to_double d' = Num d' \<and> steady sched"
    then have d: "d = Num d'" and t: "now = Num t0" and p: "0 < d'"
      and r: "to_double d' = Num d'" and s: "steady sched" by blast+
    from walk_run_ends[OF la p r s, of "Some (\<lambda>x y i s. [PathStep x y i s])"
      "Some (\<lambda>s. [SegmentComplete s])" "Some [PathComplete]" t0]
    obtain n0 where n0: "snd (?wr n0) = Idle" unfolding walk_run_def d t by blast
    have "\<forall>m\<ge>n0. \<exists>tr' h'. ?run m = Inr (tr', h', Idle)"
    proof (intro allI impI)
      fix m assume "n0 \<le> m"
      from walk_run_stays[OF n0 this] n0 have "snd (?wr m) = Idle" by simp
      then show "\<exists>tr' h'. ?run m = Inr (tr', h', Idle)" unfolding sim by simp
    qed
    then show "\<exists>n0. \<forall>m\<ge>n0. \<exists>tr' h'. ?run m = Inr (tr', h', Idle)" ..
  qed
  show ?thesis
    by (intro exI[of _ tr] exI[of _ st] conjI c1 c2 c3 c4 c5 c6 c7 c8)
qed

theorem followPath_once_witness:
  "points \<lparr>points = 0\<rparr> < length [[\<lparr>px = Num 0, py = Num 0\<rparr>, \<lparr>px = Num 100, py = Num 0\<rparr>]] \<and>
   2 \<le> length ([[\<lparr>px = Num 0, py = Num 0\<rparr>, \<lparr>px = Num 100, py = Num 0\<rparr>]] ! points \<lparr>points = 0\<rparr>) \<and>
   (0::rat) < 1000 \<and> to_double 1000 = Num 1000 \<and> steady (ticks 500) \<and>
   (\<exists>tr st.
      follow_run [[\<lparr>px = Num 0, py = Num 0\<rparr>, \<lparr>px = Num 100, py = Num 0\<rparr>]]
        (Some \<lparr>points = 0\<rparr>) True Forward (Num 1000) True False False (Num 0) (ticks 500) 1 =
        Inr (tr, [[\<lparr>px = Num 0, py = Num 0\<rparr>, \<lparr>px = Num 100, py = Num 0\<rparr>]] @
       [(if Forward = Forward then [[\<lparr>px = Num 0, py = Num 0\<rparr>, \<lparr>px = Num 100, py = Num 0\<rparr>]] ! points \<lparr>points = 0\<rparr>
        else rev ([[\<lparr>px = Num 0, py = Num 0\<rparr>, \<lparr>px = Num 100, py = Num 0\<rparr>]] ! points \<lparr>points = 0\<rparr>))], st) \<and>
      tr = [Update (Num 50) (Num 0) 0 0 0 Forward] \<and> st \<noteq> Idle \<and>
      (\<exists>wm. st = Pending (\<lparr>loopCount = 0, pathPoints = length [[\<lparr>px = Num 0, py = Num 0\<rparr>, \<lparr>px = Num 100, py = Num 0\<rparr>]],
             currentDirection = Forward\<rparr>, wm)) \<and>
      (\<forall>c. FollowComplete c \<notin> set tr)) \<and>
   (\<exists>tr st.
      follow_run [[\<lparr>px = Num 0, py = Num 0\<rparr>, \<lparr>px = Num 100, py = Num 0\<rparr>]]
        (Some \<lparr>points = 0\<rparr>) True Forward (Num 1000) True False False (Num 0) (ticks 500) 2 =
        Inr (tr, [[\<lparr>px = Num 0, py = Num 0\<rparr>, \<lparr>px = Num 100, py = Num 0\<rparr>]] @
       [(if Forward = Forward then [[\<lparr>px = Num 0, py = Num 0\<rparr>, \<lparr>px = Num 100, py = Num 0\<rparr>]] ! points \<lparr>points = 0\<rparr>
        else rev ([[\<lparr>px = Num 0, py = Num 0\<rparr>, \<lparr>px = Num 100, py = Num 0\<rparr>]] ! points \<lparr>points = 0\<rparr>))], st) \<and>
      tr = [Update (Num 50) (Num 0) 0 0 0 Forward, Update (Num 100) (Num 0) 1 0 0 Forward,
            FollowComplete 1] \<and>
      st = Idle \<and>
      tr = concat (map (follow_of True Forward) (fst (walk_run ([[\<lparr>px = Num 0, py = Num 0\<rparr>, \<lparr>px = Num 100, py = Num 0\<rparr>]] @
       [(if Forward = Forward then [[\<lparr>px = Num 0, py = Num 0\<rparr>, \<lparr>px = Num 100, py = Num 0\<rparr>]] ! points \<lparr>points = 0\<rparr>
        else rev ([[\<lparr>px = Num 0, py = Num 0\<rparr>, \<lparr>px = Num 100, py = Num 0\<rparr>]] ! points \<lparr>points = 0\<rparr>))])
        (Some (length [[\<lparr>px = Num 0, py = Num 0\<rparr>, \<lparr>px = Num 100, py = Num 0\<rparr>]])) (Num 1000) (Num 0) (ticks 500) 2))) \<and>
      (\<forall>c\<in>set tr. (\<exists>x y i s. c = Update x y i s 0 Forward) \<or> c = FollowComplete 1) \<and>
      (\<exists>ups i pr.
         tr = ups @
            [Update
               (calculateLinearInterpolation
                  (px ((if Forward = Forward then [[\<lparr>px = Num 0, py = Num 0\<rparr>, \<lparr>px = Num 100, py = Num 0\<rparr>]] ! points \<lparr>points = 0\<rparr>
        else rev ([[\<lparr>px = Num 0, py = Num 0\<rparr>, \<lparr>px = Num 100, py = Num 0\<rparr>]] ! points \<lparr>points = 0\<rparr>)) ! (length ([[\<lparr>px = Num 0, py = Num 0\<rparr>, \<lparr>px = Num 100, py = Num 0\<rparr>]] ! points \<lparr>points = 0\<rparr>) - 2)))
                  (px ((if Forward = Forward then [[\<lparr>px = Num 0, py = Num 0\<rparr>, \<lparr>px = Num 100, py = Num 0\<rparr>]] ! points \<lparr>points = 0\<rparr>
        else rev ([[\<lparr>px = Num 0, py = Num 0\<rparr>, \<lparr>px = Num 100, py = Num 0\<rparr>]] ! points \<lparr>points = 0\<rparr>)) ! (length ([[\<lparr>px = Num 0, py = Num 0\<rparr>, \<lparr>px = Num 100, py = Num 0\<rparr>]] ! points \<lparr>points = 0\<rparr>) - 1))) pr)
               (calculateLinearInterpolation
                  (py ((if Forward = Forward then [[\<lparr>px = Num 0, py = Num 0\<rparr>, \<lparr>px = Num 100, py = Num 0\<rparr>]] ! points \<lparr>points = 0\<rparr>
        else rev ([[\<lparr>px = Num 0, py = Num 0\<rparr>, \<lparr>px = Num 100, py = Num 0\<rparr>]] ! points \<lparr>points = 0\<rparr>)) ! (length ([[\<lparr>px = Num 0, py = Num 0\<rparr>, \<lparr>px = Num 100, py = Num 0\<rparr>]] ! points \<lparr>points = 0\<rparr>) - 2)))
                  (py ((if Forward = Forward then [[\<lparr>px = Num 0, py = Num 0\<rparr>, \<lparr>px = Num 100, py = Num 0\<rparr>]] ! points \<lparr>points = 0\<rparr>
        else rev ([[\<lparr>px = Num 0, py = Num 0\<rparr>, \<lparr>px = Num 100, py = Num 0\<rparr>]] ! points \<lparr>points = 0\<rparr>)) ! (length ([[\<lparr>px = Num 0, py = Num 0\<rparr>, \<lparr>px = Num 100, py = Num 0\<rparr>]] ! points \<lparr>points = 0\<rparr>) - 1))) pr)
               i (length ([[\<lparr>px = Num 0, py = Num 0\<rparr>, \<lparr>px = Num 100, py = Num 0\<rparr>]] ! points \<lparr>points = 0\<rparr>) - 2) 0 Forward] @
            (if True then [FollowComplete 1] else []) \<and>
         (pr = Num 1 \<or> pr = NaN) \<and>
         (\<forall>c\<in>set ups. \<exists>x y i s. c = Update x y i s 0 Forward)) \<and>
      (\<forall>s<length ([[\<lparr>px = Num 0, py = Num 0\<rparr>, \<lparr>px = Num 100, py = Num 0\<rparr>]] ! points \<lparr>points = 0\<rparr>) - 1. \<exists>k>0. update_indices s tr = [0..<k]) \<and>
      (\<forall>m\<ge>2. follow_run [[\<lparr>px = Num 0, py = Num 0\<rparr>, \<lparr>px = Num 100, py = Num 0\<rparr>]]
        (Some \<lparr>points = 0\<rparr>) True Forward (Num 1000) True False False (Num 0) (ticks 500) m =
         Inr (tr, [[\<lparr>px = Num 0, py = Num 0\<rparr>, \<lparr>px = Num 100, py = Num 0\<rparr>]] @
       [(if Forward = Forward then [[\<lparr>px = Num 0, py = Num 0\<rparr>, \<lparr>px = Num 100, py = Num 0\<rparr>]] ! points \<lparr>points = 0\<rparr>
        else rev ([[\<lparr>px = Num 0, py = Num 0\<rparr>, \<lparr>px = Num 100, py = Num 0\<rparr>]] ! points \<lparr>points = 0\<rparr>))], Idle)) \<and>
      (\<forall>m\<le>2. \<exists>tr' st'.
         follow_run [[\<lparr>px = Num 0, py = Num 0\<rparr>, \<lparr>px = Num 100, py = Num 0\<rparr>]]
        (Some \<lparr>points = 0\<rparr>) True Forward (Num 1000) True False False (Num 0) (ticks 500) m = Inr (tr', st') \<and>
         prefix tr' tr) \<and>
      (\<exists>n0. \<forall>m\<ge>n0. \<exists>tr' h'.
         follow_run [[\<lparr>px = Num 0, py = Num 0\<rparr>, \<lparr>px = Num 100, py = Num 0\<rparr>]]
        (Some \<lparr>points = 0\<rparr>) True Forward (Num 1000) True False False (Num 0) (ticks 500) m =
           Inr (tr', h', Idle)))"
proof -
  let ?h = "[[\<lparr>px = Num 0, py = Num 0\<rparr>, \<lparr>px = Num 100, py = Num 0\<rparr>]]"
  let ?run = "follow_run ?h (Some \<lparr>points = 0\<rparr>) True Forward (Num 1000) True False False (Num 0)
                (ticks 500)"
  have a: "points \<lparr>points = 0\<rparr> < length ?h"
    and l: "2 \<le> length (?h ! points \<lparr>points = 0\<rparr>)" and p: "(0::rat) < 1000"
    by simp_all
  have d: "to_double 1000 = Num 1000" by code_simp
  have s: "steady (ticks 500)" by (rule steady_ticks) simp
  have hyp: "Num 1000 = Num (1000::rat) \<and> Num 0 = Num (0::rat) \<and> (0::rat) < 1000 \<and>
      to_double 1000 = Num 1000 \<and> steady (ticks 500)"
    by (intro conjI refl p d s)
  have e1: "case ?run 1 of
              Inr (tr, h, Pending x) \<Rightarrow> tr = [Update (Num 50) (Num 0) 0 0 0 Forward]
            | _ \<Rightarrow> False"
    by code_simp
  have e2: "case ?run 2 of
              Inr (tr, h, Idle) \<Rightarrow>
                tr = [Update (Num 50) (Num 0) 0 0 0 Forward,
                      Update (Num 100) (Num 0) 1 0 0 Forward, FollowComplete 1]
            | _ \<Rightarrow> False"
    by code_simp
  from followPath_once[OF a l, where dir = Forward and d = "Num 1000" and has_complete = True
      and yoyo = False and now = "Num 0" and sched = "ticks 500" and n = 1]
  obtain tr1 st1 where
    r1: "?run 1 = Inr (tr1, [[\<lparr>px = Num 0, py = Num 0\<rparr>, \<lparr>px = Num 100, py = Num 0\<rparr>]] @
       [(if Forward = Forward then [[\<lparr>px = Num 0, py = Num 0\<rparr>, \<lparr>px = Num 100, py = Num 0\<rparr>]] ! points \<lparr>points = 0\<rparr>
        else rev ([[\<lparr>px = Num 0, py = Num 0\<rparr>, \<lparr>px = Num 100, py = Num 0\<rparr>]] ! points \<lparr>points = 0\<rparr>))], st1)"
    and n1: "st1 \<noteq> Idle \<longrightarrow>
         (\<exists>wm. st1 = Pending (\<lparr>loopCount = 0, pathPoints = length [[\<lparr>px = Num 0, py = Num 0\<rparr>, \<lparr>px = Num 100, py = Num 0\<rparr>]],
             currentDirection = Forward\<rparr>, wm)) \<and>
         (\<forall>c. FollowComplete c \<notin> set tr1)"
    by (elim exE conjE)
  from e1 have t1: "tr1 = [Update (Num 50) (Num 0) 0 0 0 Forward]" and i1: "st1 \<noteq> Idle"
    unfolding r1 by (cases st1; simp)+
  from n1 i1 have p1: "\<exists>wm. st1 = Pending (\<lparr>loopCount = 0, pathPoints = length [[\<lparr>px = Num 0, py = Num 0\<rparr>, \<lparr>px = Num 100, py = Num 0\<rparr>]],
             currentDirection = Forward\<rparr>, wm)"
    and q1: "\<forall>c. FollowComplete c \<notin> set tr1" by blast+
  have first: "\<exists>tr st.
      ?run 1 = Inr (tr, [[\<lparr>px = Num 0, py = Num 0\<rparr>, \<lparr>px = Num 100, py = Num 0\<rparr>]] @
       [(if Forward = Forward then [[\<lparr>px = Num 0, py = Num 0\<rparr>, \<lparr>px = Num 100, py = Num 0\<rparr>]] ! points \<lparr>points = 0\<rparr>
        else rev ([[\<lparr>px = Num 0, py = Num 0\<rparr>, \<lparr>px = Num 100, py = Num 0\<rparr>]] ! points \<lparr>points = 0\<rparr>))], st) \<and>
      tr = [Update (Num 50) (Num 0) 0 0 0 Forward] \<and> st \<noteq> Idle \<and>
      (\<exists>wm. st = Pending (\<lparr>loopCount = 0, pathPoints = length [[\<lparr>px = Num 0, py = Num 0\<rparr>, \<lparr>px = Num 100, py = Num 0\<rparr>]],
             currentDirection = Forward\<rparr>, wm)) \<and>
      (\<forall>c. FollowComplete c \<notin> set tr)"
    by (intro exI[of _ tr1] exI[of _ st1] conjI r1 t1 i1 p1 q1)
  from followPath_once[OF a l, where dir = Forward and d = "Num 1000" and has_complete = True
      and yoyo = False and now = "Num 0" and sched = "ticks 500" and n = 2]
  obtain tr st where
    r2: "?run 2 = Inr (tr, [[\<lparr>px = Num 0, py = Num 0\<rparr>, \<lparr>px = Num 100, py = Num 0\<rparr>]] @
       [(if Forward = Forward then [[\<lparr>px = Num 0, py = Num 0\<rparr>, \<lparr>px = Num 100, py = Num 0\<rparr>]] ! points \<lparr>points = 0\<rparr>
        else rev ([[\<lparr>px = Num 0, py = Num 0\<rparr>, \<lparr>px = Num 100, py = Num 0\<rparr>]] ! points \<lparr>points = 0\<rparr>))], st)"
    and c2: "tr = concat (map (follow_of True Forward) (fst (walk_run ([[\<lparr>px = Num 0, py = Num 0\<rparr>, \<lparr>px = Num 100, py = Num 0\<rparr>]] @
       [(if Forward = Forward then [[\<lparr>px = Num 0, py = Num 0\<rparr>, \<lparr>px = Num 100, py = Num 0\<rparr>]] ! points \<lparr>points = 0\<rparr>
        else rev ([[\<lparr>px = Num 0, py = Num 0\<rparr>, \<lparr>px = Num 100, py = Num 0\<rparr>]] ! points \<lparr>points = 0\<rparr>))])
        (Some (length [[\<lparr>px = Num 0, py = Num 0\<rparr>, \<lparr>px = Num 100, py = Num 0\<rparr>]])) (Num 1000) (Num 0) (ticks 500) 2)))"
    and c4: "\<forall>c\<in>set tr. (\<exists>x y i s. c = Update x y i s 0 Forward) \<or> c = FollowComplete 1"
    and c6: "st = Idle \<longrightarrow>
      (\<exists>ups i pr.
         tr = ups @
            [Update
               (calculateLinearInterpolation
                  (px ((if Forward = Forward then [[\<lparr>px = Num 0, py = Num 0\<rparr>, \<lparr>px = Num 100, py = Num 0\<rparr>]] ! points \<lparr>points = 0\<rparr>
        else rev ([[\<lparr>px = Num 0, py = Num 0\<rparr>, \<lparr>px = Num 100, py = Num 0\<rparr>]] ! points \<lparr>points = 0\<rparr>)) ! (length ([[\<lparr>px = Num 0, py = Num 0\<rparr>, \<lparr>px = Num 100, py = Num 0\<rparr>]] ! points \<lparr>points = 0\<rparr>) - 2)))
                  (px ((if Forward = Forward then [[\<lparr>px = Num 0, py = Num 0\<rparr>, \<lparr>px = Num 100, py = Num 0\<rparr>]] ! points \<lparr>points = 0\<rparr>
        else rev ([[\<lparr>px = Num 0, py = Num 0\<rparr>, \<lparr>px = Num 100, py = Num 0\<rparr>]] ! points \<lparr>points = 0\<rparr>)) ! (length ([[\<lparr>px = Num 0, py = Num 0\<rparr>, \<lparr>px = Num 100, py = Num 0\<rparr>]] ! points \<lparr>points = 0\<rparr>) - 1))) pr)
               (calculateLinearInterpolation
                  (py ((if Forward = Forward then [[\<lparr>px = Num 0, py = Num 0\<rparr>, \<lparr>px = Num 100, py = Num 0\<rparr>]] ! points \<lparr>points = 0\<rparr>
        else rev ([[\<lparr>px = Num 0, py = Num 0\<rparr>, \<lparr>px = Num 100, py = Num 0\<rparr>]] ! points \<lparr>points = 0\<rparr>)) ! (length ([[\<lparr>px = Num 0, py = Num 0\<rparr>, \<lparr>px = Num 100, py = Num 0\<rparr>]] ! points \<lparr>points = 0\<rparr>) - 2)))
                  (py ((if Forward = Forward then [[\<lparr>px = Num 0, py = Num 0\<rparr>, \<lparr>px = Num 100, py = Num 0\<rparr>]] ! points \<lparr>points = 0\<rparr>
        else rev ([[\<lparr>px = Num 0, py = Num 0\<rparr>, \<lparr>px = Num 100, py = Num 0\<rparr>]] ! points \<lparr>points = 0\<rparr>)) ! (length ([[\<lparr>px = Num 0, py = Num 0\<rparr>, \<lparr>px = Num 100, py = Num 0\<rparr>]] ! points \<lparr>points = 0\<rparr>) - 1))) pr)
               i (length ([[\<lparr>px = Num 0, py = Num 0\<rparr>, \<lparr>px = Num 100, py = Num 0\<rparr>]] ! points \<lparr>points = 0\<rparr>) - 2) 0 Forward] @
            (if True then [FollowComplete 1] else []) \<and>
         (pr = Num 1 \<or> pr = NaN) \<and>
         (\<forall>c\<in>set ups. \<exists>x y i s. c = Update x y i s 0 Forward)) \<and>
      (\<forall>s<length ([[\<lparr>px = Num 0, py = Num 0\<rparr>, \<lparr>px = Num 100, py = Num 0\<rparr>]] ! points \<lparr>points = 0\<rparr>) - 1. \<exists>k>0. update_indices s tr = [0..<k]) \<and>
      (\<forall>m\<ge>2. ?run m =
         Inr (tr, [[\<lparr>px = Num 0, py = Num 0\<rparr>, \<lparr>px = Num 100, py = Num 0\<rparr>]] @
       [(if Forward = Forward then [[\<lparr>px = Num 0, py = Num 0\<rparr>, \<lparr>px = Num 100, py = Num 0\<rparr>]] ! points \<lparr>points = 0\<rparr>
        else rev ([[\<lparr>px = Num 0, py = Num 0\<rparr>, \<lparr>px = Num 100, py = Num 0\<rparr>]] ! points \<lparr>points = 0\<rparr>))], Idle))"
    and c7: "\<forall>m\<le>2. \<exists>tr' st'. ?run m = Inr (tr', st') \<and> prefix tr' tr"
    and c8: "\<forall>d' t0. Num 1000 = Num d' \<and> Num 0 = Num t0 \<and> 0 < d' \<and> to_double d' = Num d' \<and>
         steady (ticks 500) \<longrightarrow>
         (\<exists>n0. \<forall>m\<ge>n0. \<exists>tr' h'. ?run m = Inr (tr', h', Idle))"
    by (elim exE conjE)
  from e2 have t2: "tr = [Update (Num 50) (Num 0) 0 0 0 Forward,
                          Update (Num 100) (Num 0) 1 0 0 Forward, FollowComplete 1]"
    and i2: "st = Idle"
    unfolding r2 by (cases st; simp)+
  from c6 i2 have
    k1: "\<exists>ups i pr.
         tr = ups @
            [Update
               (calculateLinearInterpolation
                  (px ((if Forward = Forward then [[\<lparr>px = Num 0, py = Num 0\<rparr>, \<lparr>px = Num 100, py = Num 0\<rparr>]] ! points \<lparr>points = 0\<rparr>
        else rev ([[\<lparr>px = Num 0, py = Num 0\<rparr>, \<lparr>px = Num 100, py = Num 0\<rparr>]] ! points \<lparr>points = 0\<rparr>)) ! (length ([[\<lparr>px = Num 0, py = Num 0\<rparr>, \<lparr>px = Num 100, py = Num 0\<rparr>]] ! points \<lparr>points = 0\<rparr>) - 2)))
                  (px ((if Forward = Forward then [[\<lparr>px = Num 0, py = Num 0\<rparr>, \<lparr>px = Num 100, py = Num 0\<rparr>]] ! points \<lparr>points = 0\<rparr>
        else rev ([[\<lparr>px = Num 0, py = Num 0\<rparr>, \<lparr>px = Num 100, py = Num 0\<rparr>]] ! points \<lparr>points = 0\<rparr>)) ! (length ([[\<lparr>px = Num 0, py = Num 0\<rparr>, \<lparr>px = Num 100, py = Num 0\<rparr>]] ! points \<lparr>points = 0\<rparr>) - 1))) pr)
               (calculateLinearInterpolation
                  (py ((if Forward = Forward then [[\<lparr>px = Num 0, py = Num 0\<rparr>, \<lparr>px = Num 100, py = Num 0\<rparr>]] ! points \<lparr>points = 0\<rparr>
        else rev ([[\<lparr>px = Num 0, py = Num 0\<rparr>, \<lparr>px = Num 100, py = Num 0\<rparr>]] ! points \<lparr>points = 0\<rparr>)) ! (length ([[\<lparr>px = Num 0, py = Num 0\<rparr>, \<lparr>px = Num 100, py = Num 0\<rparr>]] ! points \<lparr>points = 0\<rparr>) - 2)))
                  (py ((if Forward = Forward then [[\<lparr>px = Num 0, py = Num 0\<rparr>, \<lparr>px = Num 100, py = Num 0\<rparr>]] ! points \<lparr>points = 0\<rparr>
        else rev ([[\<lparr>px = Num 0, py = Num 0\<rparr>, \<lparr>px = Num 100, py = Num 0\<rparr>]] ! points \<lparr>points = 0\<rparr>)) ! (length ([[\<lparr>px = Num 0, py = Num 0\<rparr>, \<lparr>px = Num 100, py = Num 0\<rparr>]] ! points \<lparr>points = 0\<rparr>) - 1))) pr)
               i (length ([[\<lparr>px = Num 0, py = Num 0\<rparr>, \<lparr>px = Num 100, py = Num 0\<rparr>]] ! points \<lparr>points = 0\<rparr>) - 2) 0 Forward] @
            (if True then [FollowComplete 1] else []) \<and>
         (pr = Num 1 \<or> pr = NaN) \<and>
         (\<forall>c\<in>set ups. \<exists>x y i s. c = Update x y i s 0 Forward)"
    and k2: "\<forall>s<length ([[\<lparr>px = Num 0, py = Num 0\<rparr>, \<lparr>px = Num 100, py = Num 0\<rparr>]] ! points \<lparr>points = 0\<rparr>) - 1. \<exists>k>0. update_indices s tr = [0..<k]"
    and k3: "\<forall>m\<ge>2. ?run m =
         Inr (tr, [[\<lparr>px = Num 0, py = Num 0\<rparr>, \<lparr>px = Num 100, py = Num 0\<rparr>]] @
       [(if Forward = Forward then [[\<lparr>px = Num 0, py = Num 0\<rparr>, \<lparr>px = Num 100, py = Num 0\<rparr>]] ! points \<lparr>points = 0\<rparr>
        else rev ([[\<lparr>px = Num 0, py = Num 0\<rparr>, \<lparr>px = Num 100, py = Num 0\<rparr>]] ! points \<lparr>points = 0\<rparr>))], Idle)"
    by blast+
  from c8 have "Num 1000 = Num (1000::rat) \<and> Num 0 = Num (0::rat) \<and> (0::rat) < 1000 \<and>
      to_double 1000 = Num 1000 \<and> steady (ticks 500) \<longrightarrow>
      (\<exists>n0. \<forall>m\<ge>n0. \<exists>tr' h'. ?run m = Inr (tr', h', Idle))" by blast
  from this hyp have k8: "\<exists>n0. \<forall>m\<ge>n0. \<exists>tr' h'. ?run m = Inr (tr', h', Idle)" by (rule mp)
  have second: "\<exists>tr st.
      ?run 2 = Inr (tr, [[\<lparr>px = Num 0, py = Num 0\<rparr>, \<lparr>px = Num 100, py = Num 0\<rparr>]] @
       [(if Forward = Forward then [[\<lparr>px = Num 0, py = Num 0\<rparr>, \<lparr>px = Num 100, py = Num 0\<rparr>]] ! points \<lparr>points = 0\<rparr>
        else rev ([[\<lparr>px = Num 0, py = Num 0\<rparr>, \<lparr>px = Num 100, py = Num 0\<rparr>]] ! points \<lparr>points = 0\<rparr>))], st) \<and>
      tr = [Update (Num 50) (Num 0) 0 0 0 Forward, Update (Num 100) (Num 0) 1 0 0 Forward,
            FollowComplete 1] \<and>
      st = Idle \<and>
      tr = concat (map (follow_of True Forward) (fst (walk_run ([[\<lparr>px = Num 0, py = Num 0\<rparr>, \<lparr>px = Num 100, py = Num 0\<rparr>]] @
       [(if Forward = Forward then [[\<lparr>px = Num 0, py = Num 0\<rparr>, \<lparr>px = Num 100, py = Num 0\<rparr>]] ! points \<lparr>points = 0\<rparr>
        else rev ([[\<lparr>px = Num 0, py = Num 0\<rparr>, \<lparr>px = Num 100, py = Num 0\<rparr>]] ! points \<lparr>points = 0\<rparr>))])
        (Some (length [[\<lparr>px = Num 0, py = Num 0\<rparr>, \<lparr>px = Num 100, py = Num 0\<rparr>]])) (Num 1000) (Num 0) (ticks 500) 2))) \<and>
      (\<forall>c\<in>set tr. (\<exists>x y i s. c = Update x y i s 0 Forward) \<or> c = FollowComplete 1) \<and>
      (\<exists>ups i pr.
         tr = ups @
            [Update
               (calculateLinearInterpolation
                  (px ((if Forward = Forward then [[\<lparr>px = Num 0, py = Num 0\<rparr>, \<lparr>px = Num 100, py = Num 0\<rparr>]] ! points \<lparr>points = 0\<rparr>
        else rev ([[\<lparr>px = Num 0, py = Num 0\<rparr>, \<lparr>px = Num 100, py = Num 0\<rparr>]] ! points \<lparr>points = 0\<rparr>)) ! (length ([[\<lparr>px = Num 0, py = Num 0\<rparr>, \<lparr>px = Num 100, py = Num 0\<rparr>]] ! points \<lparr>points = 0\<rparr>) - 2)))
                  (px ((if Forward = Forward then [[\<lparr>px = Num 0, py = Num 0\<rparr>, \<lparr>px = Num 100, py = Num 0\<rparr>]] ! points \<lparr>points = 0\<rparr>
        else rev ([[\<lparr>px = Num 0, py = Num 0\<rparr>, \<lparr>px = Num 100, py = Num 0\<rparr>]] ! points \<lparr>points = 0\<rparr>)) ! (length ([[\<lparr>px = Num 0, py = Num 0\<rparr>, \<lparr>px = Num 100, py = Num 0\<rparr>]] ! points \<lparr>points = 0\<rparr>) - 1))) pr)
               (calculateLinearInterpolation
                  (py ((if Forward = Forward then [[\<lparr>px = Num 0, py = Num 0\<rparr>, \<lparr>px = Num 100, py = Num 0\<rparr>]] ! points \<lparr>points = 0\<rparr>
        else rev ([[\<lparr>px = Num 0, py = Num 0\<rparr>, \<lparr>px = Num 100, py = Num 0\<rparr>]] ! points \<lparr>points = 0\<rparr>)) ! (length ([[\<lparr>px = Num 0, py = Num 0\<rparr>, \<lparr>px = Num 100, py = Num 0\<rparr>]] ! points \<lparr>points = 0\<rparr>) - 2)))
                  (py ((if Forward = Forward then [[\<lparr>px = Num 0, py = Num 0\<rparr>, \<lparr>px = Num 100, py = Num 0\<rparr>]] ! points \<lparr>points = 0\<rparr>
        else rev ([[\<lparr>px = Num 0, py = Num 0\<rparr>, \<lparr>px = Num 100, py = Num 0\<rparr>]] ! points \<lparr>points = 0\<rparr>)) ! (length ([[\<lparr>px = Num 0, py = Num 0\<rparr>, \<lparr>px = Num 100, py = Num 0\<rparr>]] ! points \<lparr>points = 0\<rparr>) - 1))) pr)
               i (length ([[\<lparr>px = Num 0, py = Num 0\<rparr>, \<lparr>px = Num 100, py = Num 0\<rparr>]] ! points \<lparr>points = 0\<rparr>) - 2) 0 Forward] @
            (if True then [FollowComplete 1] else []) \<and>
         (pr = Num 1 \<or> pr = NaN) \<and>
         (\<forall>c\<in>set ups. \<exists>x y i s. c = Update x y i s 0 Forward)) \<and>
      (\<forall>s<length ([[\<lparr>px = Num 0, py = Num 0\<rparr>, \<lparr>px = Num 100, py = Num 0\<rparr>]] ! points \<lparr>points = 0\<rparr>) - 1. \<exists>k>0. update_indices s tr = [0..<k]) \<and>
      (\<forall>m\<ge>2. ?run m =
         Inr (tr, [[\<lparr>px = Num 0, py = Num 0\<rparr>, \<lparr>px = Num 100, py = Num 0\<rparr>]] @
       [(if Forward = Forward then [[\<lparr>px = Num 0, py = Num 0\<rparr>, \<lparr>px = Num 100, py = Num 0\<rparr>]] ! points \<lparr>points = 0\<rparr>
        else rev ([[\<lparr>px = Num 0, py = Num 0\<rparr>, \<lparr>px = Num 100, py = Num 0\<rparr>]] ! points \<lparr>points = 0\<rparr>))], Idle)) \<and>
      (\<forall>m\<le>2. \<exists>tr' st'.
         ?run m = Inr (tr', st') \<and>
         prefix tr' tr) \<and>
      (\<exists>n0. \<forall>m\<ge>n0. \<exists>tr' h'.
         ?run m =
           Inr (tr', h', Idle))"
    by (intro exI[of _ tr] exI[of _ st] conjI r2 t2 i2 c2 c4 k1 k2 k3 c7 k8)
  show ?thesis by (intro conjI a l p d s first second)
qed

section \<open>The player: loop and yoyo\<close>

text \<open>
  With \<open>loop\<close> and \<open>yoyo\<close> the closure that ends a traversal counts the loop, flips the
  direction, reverses the working array in place and starts the next walk on it.
\<close>

lemma update_counts_append [simp]: "update_counts (xs @ ys) = update_counts xs @ update_counts ys"
  by (simp add: update_counts_def)

lemma update_counts_simps [simp]:
  "update_counts [] = []"
  "update_counts (Update x y i s c dir # tr) = c # update_counts tr"
  by (simp_all add: update_counts_def)

lemma update_counts_bound:
  assumes "\<forall>c\<in>set tr. \<exists>x y i s k. c = Update x y i s k (turn k dir) \<and> k \<le> L"
  shows "\<forall>k\<in>set (update_counts tr). k \<le> L"
  using assms by (induction tr) auto

lemma turn_Suc: "turn (Suc k) dir = (if turn k dir = Forward then Backward else Forward)"
  by (cases dir) (auto simp: turn_def)

lemma lap_Suc: "lap (Suc k) W = rev (lap k W)"
  by (simp add: lap_def)

lemma length_lap [simp]: "length (lap k W) = length W"
  by (simp add: lap_def)

lemma follow_frame_logged:
  "\<exists>x y. follow_frame (\<lambda>x y i s c dir. [Update x y i s c dir]) d fcc loop yoyo
            (h, Pending (fo, w, m)) f =
     (if js_lt (progress_at (timestamp f) (startTime m) (duration m)) (Num 1)
      then ([Update x y (stepIndex m) (currentSegment w) (loopCount fo) (currentDirection fo)],
            h, Pending (fo, w, m\<lparr>stepIndex := Suc (stepIndex m)\<rparr>))
      else if totalSegments w \<le> Suc (currentSegment w)
      then (Update x y (stepIndex m) (currentSegment w) (loopCount fo) (currentDirection fo) #
              fst (traversal_complete d fcc loop yoyo h (performance_now f) fo),
            snd (traversal_complete d fcc loop yoyo h (performance_now f) fo))
      else ([Update x y (stepIndex m) (currentSegment w) (loopCount fo) (currentDirection fo)],
            h, Pending (fo, w\<lparr>currentSegment := Suc (currentSegment w)\<rparr>,
                     moveBetweenPoints ((h ! walk_points w) ! Suc (currentSegment w))
                       ((h ! walk_points w) ! Suc (Suc (currentSegment w)))
                       (segmentDuration w) (performance_now f))))"
  by (simp add: segment_frame_def animate_logged moveNextSegment_def case_prod_beta)

lemma traversal_complete_yoyo:
  assumes "2 \<le> length (h ! pathPoints fo)" "pathPoints fo < length h"
  shows "traversal_complete d fcc True True h now fo =
           ([], h[pathPoints fo := rev (h ! pathPoints fo)],
            Pending (fo\<lparr>loopCount := Suc (loopCount fo),
                        currentDirection := (if currentDirection fo = Forward then Backward else Forward)\<rparr>,
                     \<lparr>walk_points = pathPoints fo,
                      segmentDuration = js_div d (Num (of_nat (length (h ! pathPoints fo) - 1))),
                      totalSegments = length (h ! pathPoints fo) - 1, currentSegment = 0\<rparr>,
                     moveBetweenPoints (rev (h ! pathPoints fo) ! 0) (rev (h ! pathPoints fo) ! 1)
                       (js_div d (Num (of_nat (length (h ! pathPoints fo) - 1)))) now))"
  using assms
  by (simp add: traversal_complete_def executeAnimation_def moveAlongPath_def
      moveNextSegment_def Let_def)

text \<open>An invariant of the log together with the state.\<close>

lemma host_invariant_on:
  assumes "P init"
    and "\<And>tr s i. P (tr, s) \<Longrightarrow> P (tr @ fst (step s (sched i)), snd (step s (sched i)))"
  shows "P (host step init sched n)"
proof (induction n)
  case 0
  show ?case using assms(1) by simp
next
  case (Suc n)
  obtain tr s where h: "host step init sched n = (tr, s)"
    by (cases "host step init sched n")
  from assms(2)[of tr s n] Suc h show ?case
    by (simp add: case_prod_beta)
qed

lemma yoyo_inv_frame:
  assumes "2 \<le> length W0" "yoyo_inv W0 dir tr st"
  shows "yoyo_inv W0 dir
           (tr @ fst (follow_frame (\<lambda>x y i s c dir. [Update x y i s c dir]) d fcc True True st f))
           (snd (follow_frame (\<lambda>x y i s c dir. [Update x y i s c dir]) d fcc True True st f))"
proof -
  from assms(2) obtain h fo w m where st: "st = (h, Pending (fo, w, m))"
    by (cases st; cases "snd st") (auto simp: yoyo_inv_def)
  let ?a = "pathPoints fo" and ?L = "loopCount fo" and ?c = "currentSegment w"
  from assms(2) st have
    a: "?a < length h" and wp: "walk_points w = ?a" and arr: "h ! ?a = lap ?L W0"
    and cd: "currentDirection fo = turn ?L dir"
    and ts: "totalSegments w = length W0 - 1" and cs: "?c < totalSegments w"
    and sp: "startPoint m = (h ! ?a) ! ?c" and ep: "endPoint m = (h ! ?a) ! Suc ?c"
    and srt: "sorted (update_counts tr)"
    and ups: "\<forall>c\<in>set tr. \<exists>x y i s k. c = Update x y i s k (turn k dir) \<and> k \<le> ?L"
    and prev: "\<forall>k<?L. \<exists>x y i s. Update x y i s k (turn k dir) \<in> set tr"
    by (simp_all add: yoyo_inv_def)
  have len: "2 \<le> length (h ! ?a)" using assms(1) arr by simp
  from follow_frame_logged[of d fcc True True h fo w m f] obtain x y where
    fr: "follow_frame (\<lambda>x y i s c dir. [Update x y i s c dir]) d fcc True True
            (h, Pending (fo, w, m)) f =
     (if js_lt (progress_at (timestamp f) (startTime m) (duration m)) (Num 1)
      then ([Update x y (stepIndex m) ?c ?L (currentDirection fo)],
            h, Pending (fo, w, m\<lparr>stepIndex := Suc (stepIndex m)\<rparr>))
      else if totalSegments w \<le> Suc ?c
      then (Update x y (stepIndex m) ?c ?L (currentDirection fo) #
              fst (traversal_complete d fcc True True h (performance_now f) fo),
            snd (traversal_complete d fcc True True h (performance_now f) fo))
      else ([Update x y (stepIndex m) ?c ?L (currentDirection fo)],
            h, Pending (fo, w\<lparr>currentSegment := Suc ?c\<rparr>,
                     moveBetweenPoints ((h ! walk_points w) ! Suc ?c)
                       ((h ! walk_points w) ! Suc (Suc ?c))
                       (segmentDuration w) (performance_now f))))" by blast
  let ?U = "Update x y (stepIndex m) ?c ?L (turn ?L dir)"
  have srt': "sorted (update_counts (tr @ [?U]))"
    using srt update_counts_bound[OF ups] by (simp add: sorted_append)
  have ups': "\<forall>c\<in>set (tr @ [?U]). \<exists>x y i s k. c = Update x y i s k (turn k dir) \<and> k \<le> ?L"
    using ups by auto
  have upsS: "\<forall>c\<in>set (tr @ [?U]). \<exists>x y i s k. c = Update x y i s k (turn k dir) \<and> k \<le> Suc ?L"
    using ups' by (meson le_Suc_eq)
  have prevS: "\<forall>k<Suc ?L. \<exists>x y i s. Update x y i s k (turn k dir) \<in> set (tr @ [?U])"
  proof (intro allI impI)
    fix k
    assume "k < Suc ?L"
    then consider "k < ?L" | "k = ?L" by linarith
    then show "\<exists>x y i s. Update x y i s k (turn k dir) \<in> set (tr @ [?U])"
    proof cases
      case 1
      with prev obtain x' y' i' s' where "Update x' y' i' s' k (turn k dir) \<in> set tr" by blast
      then have "Update x' y' i' s' k (turn k dir) \<in> set (tr @ [?U])" by simp
      then show ?thesis by blast
    next
      case 2
      have "?U \<in> set (tr @ [?U])" by simp
      then show ?thesis unfolding 2 by blast
    qed
  qed
  have prev': "\<forall>k<?L. \<exists>x y i s. Update x y i s k (turn k dir) \<in> set (tr @ [?U])"
    using prevS by (meson less_Suc_eq)
  consider (running) "js_lt (progress_at (timestamp f) (startTime m) (duration m)) (Num 1)"
    | (turning) "\<not> js_lt (progress_at (timestamp f) (startTime m) (duration m)) (Num 1)"
        "totalSegments w \<le> Suc ?c"
    | (onward) "\<not> js_lt (progress_at (timestamp f) (startTime m) (duration m)) (Num 1)"
        "\<not> totalSegments w \<le> Suc ?c"
    by blast
  then show ?thesis
  proof cases
    case running
    then show ?thesis unfolding st fr using a wp arr cd ts cs sp ep srt' ups' prev'
      by (simp add: yoyo_inv_def)
  next
    case turning
    have "yoyo_inv W0 dir (tr @ [?U])
            (h[?a := rev (h ! ?a)],
             Pending (fo\<lparr>loopCount := Suc ?L,
                        currentDirection := (if currentDirection fo = Forward then Backward else Forward)\<rparr>,
                     \<lparr>walk_points = ?a,
                      segmentDuration = js_div d (Num (of_nat (length (h ! ?a) - 1))),
                      totalSegments = length (h ! ?a) - 1, currentSegment = 0\<rparr>,
                     moveBetweenPoints (rev (h ! ?a) ! 0) (rev (h ! ?a) ! 1)
                       (js_div d (Num (of_nat (length (h ! ?a) - 1)))) (performance_now f)))"
      unfolding yoyo_inv_def using a arr cd srt' upsS prevS assms(1)
      by (simp add: lap_Suc turn_Suc moveBetweenPoints_def)
    then show ?thesis unfolding st fr using turning cd
      by (simp add: traversal_complete_yoyo[OF len a])
  next
    case onward
    then show ?thesis unfolding st fr using a wp arr cd ts cs sp ep srt' ups' prev'
      by (simp add: yoyo_inv_def moveBetweenPoints_def)
  qed
qed

lemma yoyo_turn:
  assumes "2 \<le> length W0" "yoyo_inv W0 dir tr (h, Pending (fo, w, m))"
    and "follow_frame (\<lambda>x y i s c dir. [Update x y i s c dir]) d fcc True True
           (h, Pending (fo, w, m)) f = (calls, h2, Pending (fo2, w2, m2))"
  shows "loopCount fo2 = loopCount fo \<or>
         loopCount fo2 = Suc (loopCount fo) \<and>
         currentDirection fo2 = (if currentDirection fo = Forward then Backward else Forward) \<and>
         h2 ! pathPoints fo2 = rev (h ! pathPoints fo) \<and> startPoint m2 = endPoint m \<and>
         currentSegment w2 = 0"
proof -
  let ?a = "pathPoints fo" and ?L = "loopCount fo" and ?c = "currentSegment w"
  from assms(2) have
    a: "?a < length h" and arr: "h ! ?a = lap ?L W0"
    and ts: "totalSegments w = length W0 - 1" and cs: "?c < totalSegments w"
    and ep: "endPoint m = (h ! ?a) ! Suc ?c"
    by (simp_all add: yoyo_inv_def)
  have len: "2 \<le> length (h ! ?a)" using assms(1) arr by simp
  from follow_frame_logged[of d fcc True True h fo w m f] obtain x y where
    fr: "follow_frame (\<lambda>x y i s c dir. [Update x y i s c dir]) d fcc True True
            (h, Pending (fo, w, m)) f =
     (if js_lt (progress_at (timestamp f) (startTime m) (duration m)) (Num 1)
      then ([Update x y (stepIndex m) ?c ?L (currentDirection fo)],
            h, Pending (fo, w, m\<lparr>stepIndex := Suc (stepIndex m)\<rparr>))
      else if totalSegments w \<le> Suc ?c
      then (Update x y (stepIndex m) ?c ?L (currentDirection fo) #
              fst (traversal_complete d fcc True True h (performance_now f) fo),
            snd (traversal_complete d fcc True True h (performance_now f) fo))
      else ([Update x y (stepIndex m) ?c ?L (currentDirection fo)],
            h, Pending (fo, w\<lparr>currentSegment := Suc ?c\<rparr>,
                     moveBetweenPoints ((h ! walk_points w) ! Suc ?c)
                       ((h ! walk_points w) ! Suc (Suc ?c))
                       (segmentDuration w) (performance_now f))))" by blast
  show ?thesis
  proof (cases "\<not> js_lt (progress_at (timestamp f) (startTime m) (duration m)) (Num 1) \<and>
                totalSegments w \<le> Suc ?c")
    case False
    with assms(3) fr show ?thesis by (auto split: if_splits)
  next
    case True
    with cs ts have last: "Suc ?c = length (h ! ?a) - 1" using arr by simp
    have "0 < length (h ! ?a)" using len by linarith
    from rev_nth[OF this] have "rev (h ! ?a) ! 0 = (h ! ?a) ! (length (h ! ?a) - 1)"
      by simp
    with True assms(3) fr ep last a show ?thesis
      by (simp add: traversal_complete_yoyo[OF len a] moveBetweenPoints_def)
  qed
qed

lemma timed_frame:
  assumes "2 \<le> length W0" "yoyo_inv W0 dir tr st" "timed s st"
    and "js_div d (Num (of_nat (length W0 - 1))) = Num s" "performance_now f = Num c"
  shows "timed s (snd (follow_frame (\<lambda>x y i s c dir. [Update x y i s c dir]) d fcc True True st f))"
proof -
  from assms(2) obtain h fo w m where st: "st = (h, Pending (fo, w, m))"
    by (cases st; cases "snd st") (auto simp: yoyo_inv_def)
  let ?a = "pathPoints fo"
  from assms(2) st have a: "?a < length h" and arr: "h ! ?a = lap (loopCount fo) W0"
    by (simp_all add: yoyo_inv_def)
  have len: "2 \<le> length (h ! ?a)" using assms(1) arr by simp
  have l: "length (h ! ?a) = length W0" using arr by simp
  from follow_frame_logged[of d fcc True True h fo w m f] obtain x y where
    fr: "follow_frame (\<lambda>x y i s c dir. [Update x y i s c dir]) d fcc True True
            (h, Pending (fo, w, m)) f =
     (if js_lt (progress_at (timestamp f) (startTime m) (duration m)) (Num 1)
      then ([Update x y (stepIndex m) (currentSegment w) (loopCount fo) (currentDirection fo)],
            h, Pending (fo, w, m\<lparr>stepIndex := Suc (stepIndex m)\<rparr>))
      else if totalSegments w \<le> Suc (currentSegment w)
      then (Update x y (stepIndex m) (currentSegment w) (loopCount fo) (currentDirection fo) #
              fst (traversal_complete d fcc True True h (performance_now f) fo),
            snd (traversal_complete d fcc True True h (performance_now f) fo))
      else ([Update x y (stepIndex m) (currentSegment w) (loopCount fo) (currentDirection fo)],
            h, Pending (fo, w\<lparr>currentSegment := Suc (currentSegment w)\<rparr>,
                     moveBetweenPoints ((h ! walk_points w) ! Suc (currentSegment w))
                       ((h ! walk_points w) ! Suc (Suc (currentSegment w)))
                       (segmentDuration w) (performance_now f))))" by blast
  show ?thesis unfolding st fr using assms(3,4,5) st
    by (simp add: timed_def traversal_complete_yoyo[OF len a] l moveBetweenPoints_def)
qed

lemma yoyo_next_lap:
  assumes "2 \<le> length W0" "steady sched" "0 \<le> s" "to_double s = Num s"
    and "yoyo_inv W0 dir tr (h, Pending (fo, w, m))" "timed s (h, Pending (fo, w, m))"
  shows "\<exists>n tr' h' fo' wm'.
           host (follow_frame (\<lambda>x y i s c dir. [Update x y i s c dir]) d fcc True True)
             (tr, h, Pending (fo, w, m)) sched n = (tr', h', Pending (fo', wm')) \<and>
           loopCount fo' = Suc (loopCount fo)"
proof -
  let ?upd = "\<lambda>x y i s c dir. [Update x y i s c dir]"
  let ?g = "\<lambda>x y i s. ?upd x y i s (loopCount fo) (currentDirection fo)"
  let ?W = "host (walk_frame (Some ?g) None None h) ([], Pending (w, m)) sched"
  from assms(6) obtain t where
    tm: "segmentDuration w = Num s" "duration m = Num s" "startTime m = Num t"
    by (auto simp: timed_def)
  from assms(5) have a: "pathPoints fo < length h"
    and arr: "h ! pathPoints fo = lap (loopCount fo) W0"
    by (simp_all add: yoyo_inv_def)
  have len: "2 \<le> length (h ! pathPoints fo)" using assms(1) arr by simp
  from walk_reaches_idle[OF assms(2,3,4) tm refl, of "Some ?g" None None h "[]"]
  obtain n0 where "snd (?W n0) = Idle" by blast
  from walk_first_idle[OF this] obtain k calls wm' calls' where
    wk: "?W k = (calls, Pending wm')"
    and wf: "walk_frame (Some ?g) None None h (Pending wm') (sched k) = (calls', Idle)" by blast
  from follow_turn[where upd = ?upd and fo = fo, OF wk wf, of d fcc True True tr]
  show ?thesis unfolding traversal_complete_yoyo[OF len a] by (intro exI[of _ "Suc k"]) simp
qed

lemma yoyo_run_inv:
  assumes "2 \<le> length (h ! points p)"
  shows "\<exists>tr st. follow_run h (Some p) True dir d has_complete True True now sched n = Inr (tr, st) \<and>
           yoyo_inv (if dir = Forward then h ! points p else rev (h ! points p)) dir tr st \<and>
           (\<forall>d' s. d = Num d' \<and> (\<exists>t. now = Num t) \<and> steady sched \<and>
                   js_div d (Num (of_nat (length (h ! points p) - 1))) = Num s \<longrightarrow> timed s st)"
proof -
  let ?W0 = "if dir = Forward then h ! points p else rev (h ! points p)"
  let ?upd = "\<lambda>x y i s c dir. [Update x y i s c dir]"
  let ?fcc = "if has_complete then Some (\<lambda>c. [FollowComplete c]) else None"
  let ?F = "follow_frame ?upd d ?fcc True True"
  let ?seg = "js_div d (Num (of_nat (length (h ! points p) - 1)))"
  let ?init = "([] :: follow_call list, h @ [?W0],
                Pending (\<lparr>loopCount = 0, pathPoints = length h, currentDirection = dir\<rparr>,
                  \<lparr>walk_points = length h, segmentDuration = ?seg,
                   totalSegments = length (h ! points p) - 1, currentSegment = 0\<rparr>,
                  moveBetweenPoints (?W0 ! 0) (?W0 ! 1) ?seg now))"
  have W0: "2 \<le> length ?W0" "length ?W0 = length (h ! points p)" using assms by simp_all
  have run: "follow_run h (Some p) True dir d has_complete True True now sched n =
               Inr (host ?F ?init sched n)"
    unfolding follow_run_def using followPath_start[OF assms, of ?upd dir d ?fcc True True now]
    by simp
  let ?P = "\<lambda>(tr, st). yoyo_inv ?W0 dir tr st \<and>
              (\<forall>d' s. d = Num d' \<and> (\<exists>t. now = Num t) \<and> steady sched \<and> ?seg = Num s \<longrightarrow> timed s st)"
  have PR: "?P (host ?F ?init sched n)"
  proof (rule host_invariant_on)
    show "?P ?init" using assms
      by (auto simp: yoyo_inv_def timed_def lap_def turn_def moveBetweenPoints_def)
  next
    fix tr st i
    assume P: "?P (tr, st)"
    then have inv: "yoyo_inv ?W0 dir tr st" by simp
    have "\<forall>d' s. d = Num d' \<and> (\<exists>t. now = Num t) \<and> steady sched \<and> ?seg = Num s \<longrightarrow>
            timed s (snd (?F st (sched i)))"
    proof (intro allI impI)
      fix d' s
      assume h: "d = Num d' \<and> (\<exists>t. now = Num t) \<and> steady sched \<and> ?seg = Num s"
      with P have t: "timed s st" by auto
      from h obtain c where c: "performance_now (sched i) = Num c" unfolding steady_def by blast
      from h have "?seg = Num s" by blast
      then have sg: "js_div d (Num (of_nat (length ?W0 - 1))) = Num s" by (simp only: W0(2))
      show "timed s (snd (?F st (sched i)))"
        by (rule timed_frame[OF W0(1) inv t sg c])
    qed
    with yoyo_inv_frame[OF W0(1) inv, of d ?fcc "sched i"]
    show "?P (tr @ fst (?F st (sched i)), snd (?F st (sched i)))" by simp
  qed
  obtain tr st where R: "host ?F ?init sched n = (tr, st)"
    by (cases "host ?F ?init sched n")
  from PR have "yoyo_inv ?W0 dir tr st \<and>
     (\<forall>d' s. d = Num d' \<and> (\<exists>t. now = Num t) \<and> steady sched \<and> ?seg = Num s \<longrightarrow> timed s st)"
    unfolding R prod.case .
  then have "Inr (tr, st) = (Inr (tr, st) :: followPath_error + follow_call list \<times> follow_state) \<and>
     yoyo_inv ?W0 dir tr st \<and>
     (\<forall>d' s. d = Num d' \<and> (\<exists>t. now = Num t) \<and> steady sched \<and> ?seg = Num s \<longrightarrow> timed s st)"
    by (intro conjI refl) (rule conjunct1, assumption, rule conjunct2, assumption)
  then show ?thesis unfolding run R by (intro exI[of _ tr] exI[of _ st])
qed

lemma follow_run_host:
  assumes "2 \<le> length (h ! points p)"
  shows "\<exists>fo wm. \<forall>sched n.
           follow_run h (Some p) True dir d has_complete loop yoyo now sched n =
             Inr (host (follow_frame (\<lambda>x y i s c dir. [Update x y i s c dir]) d
                          (if has_complete then Some (\<lambda>c. [FollowComplete c]) else None)
                          loop yoyo)
                    ([], h @ [if dir = Forward then h ! points p else rev (h ! points p)],
                     Pending (fo, wm)) sched n) \<and>
           loopCount fo = 0"
proof -
  note s = followPath_start[OF assms, of "\<lambda>x y i s c dir. [Update x y i s c dir]" dir d
      "if has_complete then Some (\<lambda>c. [FollowComplete c]) else None" loop yoyo now]
  have l: "loopCount \<lparr>loopCount = 0, pathPoints = length h, currentDirection = dir\<rparr> = 0"
    by simp
  show ?thesis
    unfolding follow_run_def if_True s sum.case
    apply (rule exI[of _ "\<lparr>loopCount = 0, pathPoints = length h, currentDirection = dir\<rparr>"])
    apply (rule exI)
    apply (intro allI conjI)
     apply (rule refl)
    apply (rule l)
    done
qed

lemma yoyo_reaches_lap:
  assumes "2 \<le> length (h ! points p)" "0 < d" "to_double d = Num d" "steady sched"
  shows "\<exists>n tr h' fo wm.
           follow_run h (Some p) True dir (Num d) has_complete True True (Num t0) sched n =
             Inr (tr, h', Pending (fo, wm)) \<and> loopCount fo = k"
proof (induction k)
  case 0
  from follow_run_host[OF assms(1), of dir "Num d" has_complete True True "Num t0"]
  obtain fo wm where
    "follow_run h (Some p) True dir (Num d) has_complete True True (Num t0) sched 0 =
       Inr ([], h @ [if dir = Forward then h ! points p else rev (h ! points p)], Pending (fo, wm))"
    and "loopCount fo = 0"
    by (metis host.simps(1))
  then show ?case by blast
next
  case (Suc k)
  let ?W0 = "if dir = Forward then h ! points p else rev (h ! points p)"
  let ?F = "follow_frame (\<lambda>x y i s c dir. [Update x y i s c dir]) (Num d)
              (if has_complete then Some (\<lambda>c. [FollowComplete c]) else None) True True"
  from Suc obtain n tr h' fo wm where
    n: "follow_run h (Some p) True dir (Num d) has_complete True True (Num t0) sched n =
          Inr (tr, h', Pending (fo, wm))" and k: "loopCount fo = k" by blast
  obtain w m where wm: "wm = (w, m)" by (cases wm)
  from assms(1) have N: "0 < length (h ! points p) - 1" by simp
  from segment_duration[OF assms(2,3) N] obtain s where
    s: "js_div (Num d) (Num (of_nat (length (h ! points p) - 1))) = Num s" "0 \<le> s"
       "to_double s = Num s" by blast
  from yoyo_run_inv[OF assms(1), of dir "Num d" has_complete "Num t0" sched n] n wm s(1) assms(4)
  have inv: "yoyo_inv ?W0 dir tr (h', Pending (fo, w, m))"
    and tm: "timed s (h', Pending (fo, w, m))" by auto
  have W0: "2 \<le> length ?W0" using assms(1) by simp
  from yoyo_next_lap[OF W0 steady_shift[OF assms(4), of n] s(2,3) inv tm,
      of "Num d" "if has_complete then Some (\<lambda>c. [FollowComplete c]) else None"]
  obtain j tr' h'' fo' wm' where
    j: "host ?F (tr, h', Pending (fo, w, m)) (\<lambda>i. sched (n + i)) j = (tr', h'', Pending (fo', wm'))"
    and l: "loopCount fo' = Suc (loopCount fo)" by blast
  from follow_run_host[OF assms(1), of dir "Num d" has_complete True True "Num t0"]
  obtain fo0 wm0 where
    run: "\<And>n. follow_run h (Some p) True dir (Num d) has_complete True True (Num t0) sched n =
             Inr (host ?F ([], h @ [?W0], Pending (fo0, wm0)) sched n)" by blast
  from n run[of n] wm have "host ?F ([], h @ [?W0], Pending (fo0, wm0)) sched n =
      (tr, h', Pending (fo, w, m))" by simp
  with j have "host ?F ([], h @ [?W0], Pending (fo0, wm0)) sched (n + j) =
      (tr', h'', Pending (fo', wm'))" unfolding host_add by simp
  with run[of "n + j"] l k show ?case by (intro exI[of _ "n + j"]) simp
qed

text \<open>
  C4. With \<open>loop\<close> and \<open>yoyo\<close>, on a path of at least two points and with an update
  callback, the player is registered after every number of frames. Every call in its log is a
  call of the update callback that reports, with loop count \<open>k\<close>, the direction of the call
  flipped \<open>k\<close> times; the loop counts never decrease along the log, and every traversal
  before the current one has reported. The current direction is the direction of the call
  flipped once per finished traversal, the working array is the array of the first traversal
  reversed once per finished traversal, and the move of the moment runs between two
  neighbouring points of it. One frame later the loop count is the same, or it is one more:
  then the direction has flipped, the working array has been reversed, and the new traversal
  starts with segment 0 at the point where the last move ended. For a positive binary64
  duration and a steady host every loop count is reached.
\<close>

theorem followPath_yoyo:
  assumes "points p < length h" and "2 \<le> length (h ! points p)"
  shows "\<exists>tr h1 fo w m tr2 h2 fo2 w2 m2.
      follow_run h (Some p) True dir d has_complete True True now sched n =
        Inr (tr, h1, Pending (fo, w, m)) \<and>
      follow_run h (Some p) True dir d has_complete True True now sched (Suc n) =
        Inr (tr2, h2, Pending (fo2, w2, m2)) \<and>
      sorted (update_counts tr) \<and>
      (\<forall>c\<in>set tr. \<exists>x y i s k. c = Update x y i s k (turn k dir) \<and> k \<le> loopCount fo) \<and>
      (\<forall>k<loopCount fo. \<exists>x y i s. Update x y i s k (turn k dir) \<in> set tr) \<and>
      currentDirection fo = turn (loopCount fo) dir \<and>
      h1 ! pathPoints fo =
        lap (loopCount fo) (if dir = Forward then h ! points p else rev (h ! points p)) \<and>
      startPoint m = (h1 ! pathPoints fo) ! currentSegment w \<and>
      endPoint m = (h1 ! pathPoints fo) ! Suc (currentSegment w) \<and>
      (loopCount fo2 = loopCount fo \<or>
       loopCount fo2 = Suc (loopCount fo) \<and>
       currentDirection fo2 = (if currentDirection fo = Forward then Backward else Forward) \<and>
       h2 ! pathPoints fo2 = rev (h1 ! pathPoints fo) \<and> startPoint m2 = endPoint m \<and>
       currentSegment w2 = 0) \<and>
      (\<forall>d' t0 k. d = Num d' \<and> now = Num t0 \<and> 0 < d' \<and> to_double d' = Num d' \<and> steady sched \<longrightarrow>
         (\<exists>n' tr' h' fo' wm'.
            follow_run h (Some p) True dir d has_complete True True now sched n' =
              Inr (tr', h', Pending (fo', wm')) \<and> loopCount fo' = k))"
proof -
  let ?W0 = "if dir = Forward then h ! points p else rev (h ! points p)"
  let ?F = "follow_frame (\<lambda>x y i s c dir. [Update x y i s c dir]) d
              (if has_complete then Some (\<lambda>c. [FollowComplete c]) else None) True True"
  have W0: "2 \<le> length ?W0" using assms(2) by simp
  from yoyo_run_inv[OF assms(2), of dir d has_complete now sched n] obtain tr st where
    r1: "follow_run h (Some p) True dir d has_complete True True now sched n = Inr (tr, st)"
    and i1: "yoyo_inv ?W0 dir tr st" by blast
  from i1 obtain h1 fo w m where st: "st = (h1, Pending (fo, w, m))"
    by (cases st; cases "snd st") (auto simp: yoyo_inv_def)
  from yoyo_run_inv[OF assms(2), of dir d has_complete now sched "Suc n"] obtain tr2 st2 where
    r2: "follow_run h (Some p) True dir d has_complete True True now sched (Suc n) = Inr (tr2, st2)"
    and i2: "yoyo_inv ?W0 dir tr2 st2" by blast
  from i2 obtain h2 fo2 w2 m2 where st2: "st2 = (h2, Pending (fo2, w2, m2))"
    by (cases st2; cases "snd st2") (auto simp: yoyo_inv_def)
  from follow_run_host[OF assms(2), of dir d has_complete True True now]
  obtain fo0 wm0 where
    run: "\<And>n. follow_run h (Some p) True dir d has_complete True True now sched n =
             Inr (host ?F ([], h @ [?W0], Pending (fo0, wm0)) sched n)" by blast
  from r1 run[of n] st have hn: "host ?F ([], h @ [?W0], Pending (fo0, wm0)) sched n =
      (tr, h1, Pending (fo, w, m))" by simp
  from r2 run[of "Suc n"] st2 have "host ?F ([], h @ [?W0], Pending (fo0, wm0)) sched (Suc n) =
      (tr2, h2, Pending (fo2, w2, m2))" by simp
  then have "\<exists>calls. ?F (h1, Pending (fo, w, m)) (sched n) = (calls, h2, Pending (fo2, w2, m2))"
    unfolding host.simps hn by (auto split: prod.splits)
  then obtain calls where
    fr: "?F (h1, Pending (fo, w, m)) (sched n) = (calls, h2, Pending (fo2, w2, m2))" by blast
  note t = yoyo_turn[OF W0 i1[unfolded st] fr]
  from i1 st have
    a: "sorted (update_counts tr)"
    and b: "\<forall>c\<in>set tr. \<exists>x y i s k. c = Update x y i s k (turn k dir) \<and> k \<le> loopCount fo"
    and b': "\<forall>k<loopCount fo. \<exists>x y i s. Update x y i s k (turn k dir) \<in> set tr"
    and c: "currentDirection fo = turn (loopCount fo) dir"
    and e: "h1 ! pathPoints fo = lap (loopCount fo) ?W0"
    and f: "startPoint m = (h1 ! pathPoints fo) ! currentSegment w"
    and g: "endPoint m = (h1 ! pathPoints fo) ! Suc (currentSegment w)"
    by (simp_all add: yoyo_inv_def)
  have live: "\<forall>d' t0 k. d = Num d' \<and> now = Num t0 \<and> 0 < d' \<and> to_double d' = Num d' \<and> steady sched \<longrightarrow>
         (\<exists>n' tr' h' fo' wm'.
            follow_run h (Some p) True dir d has_complete True True now sched n' =
              Inr (tr', h', Pending (fo', wm')) \<and> loopCount fo' = k)"
    using yoyo_reaches_lap[OF assms(2)] by blast
  show ?thesis
    unfolding r1 r2 st st2
    by (intro exI[of _ tr] exI[of _ h1] exI[of _ fo] exI[of _ w] exI[of _ m] exI[of _ tr2]
        exI[of _ h2] exI[of _ fo2] exI[of _ w2] exI[of _ m2] conjI refl a b b' c e f g t
        live[unfolded r1 r2 st st2])
qed

theorem followPath_yoyo_witness:
  "points \<lparr>points = 0\<rparr> < length [[\<lparr>px = Num 0, py = Num 0\<rparr>, \<lparr>px = Num 100, py = Num 0\<rparr>]] \<and>
   2 \<le> length ([[\<lparr>px = Num 0, py = Num 0\<rparr>, \<lparr>px = Num 100, py = Num 0\<rparr>]] ! points \<lparr>points = 0\<rparr>) \<and>
   (0::rat) < 1000 \<and> to_double 1000 = Num 1000 \<and> steady (ticks 500) \<and>
   (\<exists>tr h1 fo w m tr2 h2 fo2 w2 m2.
      follow_run [[\<lparr>px = Num 0, py = Num 0\<rparr>, \<lparr>px = Num 100, py = Num 0\<rparr>]]
        (Some \<lparr>points = 0\<rparr>) True Forward (Num 1000) True True True (Num 0) (ticks 500) 1 =
        Inr (tr, h1, Pending (fo, w, m)) \<and>
      follow_run [[\<lparr>px = Num 0, py = Num 0\<rparr>, \<lparr>px = Num 100, py = Num 0\<rparr>]]
        (Some \<lparr>points = 0\<rparr>) True Forward (Num 1000) True True True (Num 0) (ticks 500) (Suc 1) =
        Inr (tr2, h2, Pending (fo2, w2, m2)) \<and>
      loopCount fo = 0 \<and> loopCount fo2 = 1 \<and>
      sorted (update_counts tr) \<and>
      (\<forall>c\<in>set tr. \<exists>x y i s k. c = Update x y i s k (turn k Forward) \<and> k \<le> loopCount fo) \<and>
      (\<forall>k<loopCount fo. \<exists>x y i s. Update x y i s k (turn k Forward) \<in> set tr) \<and>
      currentDirection fo = turn (loopCount fo) Forward \<and>
      h1 ! pathPoints fo =
        lap (loopCount fo) (if Forward = Forward then [[\<lparr>px = Num 0, py = Num 0\<rparr>, \<lparr>px = Num 100, py = Num 0\<rparr>]] ! points \<lparr>points = 0\<rparr>
                            else rev ([[\<lparr>px = Num 0, py = Num 0\<rparr>, \<lparr>px = Num 100, py = Num 0\<rparr>]] ! points \<lparr>points = 0\<rparr>)) \<and>
      startPoint m = (h1 ! pathPoints fo) ! currentSegment w \<and>
      endPoint m = (h1 ! pathPoints fo) ! Suc (currentSegment w) \<and>
      currentDirection fo2 = (if currentDirection fo = Forward then Backward else Forward) \<and>
      h2 ! pathPoints fo2 = rev (h1 ! pathPoints fo) \<and> startPoint m2 = endPoint m \<and>
      currentSegment w2 = 0 \<and>
      (\<forall>k. \<exists>n' tr' h' fo' wm'.
         follow_run [[\<lparr>px = Num 0, py = Num 0\<rparr>, \<lparr>px = Num 100, py = Num 0\<rparr>]]
        (Some \<lparr>points = 0\<rparr>) True Forward (Num 1000) True True True (Num 0) (ticks 500) n' =
           Inr (tr', h', Pending (fo', wm')) \<and> loopCount fo' = k))"
proof -
  let ?h = "[[\<lparr>px = Num 0, py = Num 0\<rparr>, \<lparr>px = Num 100, py = Num 0\<rparr>]]"
  let ?run = "follow_run ?h (Some \<lparr>points = 0\<rparr>) True Forward (Num 1000) True True True (Num 0) (ticks 500)"
  have a: "points \<lparr>points = 0\<rparr> < length ?h"
    and l: "2 \<le> length (?h ! points \<lparr>points = 0\<rparr>)" and p: "(0::rat) < 1000"
    by simp_all
  have d: "to_double 1000 = Num 1000" by code_simp
  have s: "steady (ticks 500)" by (rule steady_ticks) simp
  have c1: "case ?run 1 of Inr (tr, h, Pending (fo, wm)) \<Rightarrow> loopCount fo = 0 | _ \<Rightarrow> False"
    by code_simp
  have c2: "case ?run (Suc 1) of Inr (tr, h, Pending (fo, wm)) \<Rightarrow> loopCount fo = 1 | _ \<Rightarrow> False"
    by code_simp
  from followPath_yoyo[OF a l, of Forward "Num 1000" True "Num 0" "ticks 500" 1]
  obtain tr h1 fo w m tr2 h2 fo2 w2 m2 where
    r1: "?run 1 = Inr (tr, h1, Pending (fo, w, m))"
    and r2: "?run (Suc 1) = Inr (tr2, h2, Pending (fo2, w2, m2))"
    and srt: "sorted (update_counts tr)"
    and ups: "\<forall>c\<in>set tr. \<exists>x y i s k. c = Update x y i s k (turn k Forward) \<and> k \<le> loopCount fo"
    and prev: "\<forall>k<loopCount fo. \<exists>x y i s. Update x y i s k (turn k Forward) \<in> set tr"
    and cd: "currentDirection fo = turn (loopCount fo) Forward"
    and arr: "h1 ! pathPoints fo =
        lap (loopCount fo) (if Forward = Forward then ?h ! points \<lparr>points = 0\<rparr>
                            else rev (?h ! points \<lparr>points = 0\<rparr>))"
    and sp: "startPoint m = (h1 ! pathPoints fo) ! currentSegment w"
    and ep: "endPoint m = (h1 ! pathPoints fo) ! Suc (currentSegment w)"
    and t: "loopCount fo2 = loopCount fo \<or>
       loopCount fo2 = Suc (loopCount fo) \<and>
       currentDirection fo2 = (if currentDirection fo = Forward then Backward else Forward) \<and>
       h2 ! pathPoints fo2 = rev (h1 ! pathPoints fo) \<and> startPoint m2 = endPoint m \<and>
       currentSegment w2 = 0"
    and live: "\<forall>d' t0 k. Num 1000 = Num d' \<and> Num 0 = Num t0 \<and> 0 < d' \<and> to_double d' = Num d' \<and>
         steady (ticks 500) \<longrightarrow>
         (\<exists>n' tr' h' fo' wm'. ?run n' = Inr (tr', h', Pending (fo', wm')) \<and> loopCount fo' = k)"
    by (elim exE conjE)
  from c1 have l1: "loopCount fo = 0" unfolding r1 by simp
  from c2 have l2: "loopCount fo2 = 1" unfolding r2 by simp
  from t l1 l2 have
    t1: "currentDirection fo2 = (if currentDirection fo = Forward then Backward else Forward)"
    and t2: "h2 ! pathPoints fo2 = rev (h1 ! pathPoints fo)"
    and t3: "startPoint m2 = endPoint m" and t4: "currentSegment w2 = 0"
    by simp_all
  have lv: "\<forall>k. \<exists>n' tr' h' fo' wm'. ?run n' = Inr (tr', h', Pending (fo', wm')) \<and> loopCount fo' = k"
  proof
    fix k
    from p d s have "Num 1000 = Num (1000::rat) \<and> Num 0 = Num (0::rat) \<and> (0::rat) < 1000 \<and>
        to_double 1000 = Num 1000 \<and> steady (ticks 500)" by (intro conjI refl)
    with live[rule_format, of 1000 0 k]
    show "\<exists>n' tr' h' fo' wm'. ?run n' = Inr (tr', h', Pending (fo', wm')) \<and> loopCount fo' = k" .
  qed
  show ?thesis
    apply (intro conjI a l p d s)
    apply (rule exI[of _ tr], rule exI[of _ h1], rule exI[of _ fo], rule exI[of _ w],
        rule exI[of _ m], rule exI[of _ tr2], rule exI[of _ h2], rule exI[of _ fo2],
        rule exI[of _ w2], rule exI[of _ m2])
    apply (intro conjI r1 r2 l1 l2 srt ups prev cd arr sp ep t1 t2 t3 t4 lv)
    done
qed

section \<open>Degenerate paths and invalid calls\<close>

text \<open>
  C6. On a null array or an array of fewer than two points, \<open>moveAlongPath\<close> hands over to
  the completion callback before it returns, and the log of the walk is this one call of
  the completion callback, whatever the number of frames that follow: no step and no
  segment completion is ever reported. The walk has no result that stands for an error.
\<close>

theorem moveAlongPath_degenerate:
  assumes "pts = None \<or> (\<exists>a. pts = Some a \<and> length (h ! a) < 2)"
  shows "moveAlongPath h pts d now = Finished \<and>
         walk_run h pts d now sched n = ([PathComplete], Idle)"
proof -
  have fin: "moveAlongPath h pts d now = Finished"
    using assms by (auto simp: moveAlongPath_def)
  then have "walk_start (Some [PathComplete]) h pts d now = ([PathComplete], Idle)"
    by (simp add: walk_start_def)
  then show ?thesis using fin by (simp add: walk_run_def host_stuck)
qed

theorem moveAlongPath_degenerate_witness:
  "(Some 0 = None \<or> (\<exists>a. Some 0 = Some a \<and> length ([[\<lparr>px = Num 0, py = Num 0\<rparr>]] ! a) < 2)) \<and>
   moveAlongPath [[\<lparr>px = Num 0, py = Num 0\<rparr>]] (Some 0) (Num 1000) (Num 0) = Finished \<and>
   walk_run [[\<lparr>px = Num 0, py = Num 0\<rparr>]] (Some 0) (Num 1000) (Num 0) (ticks 16) 3 =
     ([PathComplete], Idle)"
  using moveAlongPath_degenerate[of "Some 0" "[[\<lparr>px = Num 0, py = Num 0\<rparr>]]"
      "Num 1000" "Num 0" "ticks 16" 3]
  by simp

text \<open>
  C7. When the path is not a \<open>Path\<close> instance, or has fewer than two points, or the update
  callback is missing, \<open>followPath\<close> throws: the call has an error as its result, so nothing
  was registered with the host and no callback is called, now or on a later frame.
\<close>

theorem followPath_invalid:
  assumes "pa = None \<or> (\<exists>p. pa = Some p \<and> length (h ! points p) < 2) \<or> \<not> has_update"
  shows "\<exists>e. follow_run h pa has_update dir d has_complete loop yoyo now sched n = Inl e"
  using assms by (auto simp: follow_run_def followPath_def split: option.splits)

theorem followPath_invalid_witness:
  "(Some \<lparr>points = 0\<rparr> = None \<or>
    (\<exists>p. Some \<lparr>points = 0\<rparr> = Some p \<and> length ([[\<lparr>px = Num 0, py = Num 0\<rparr>]] ! points p) < 2) \<or>
    \<not> True) \<and>
   (\<exists>e. follow_run [[\<lparr>px = Num 0, py = Num 0\<rparr>]] (Some \<lparr>points = 0\<rparr>) True Forward
          (Num 1000) True False False (Num 0) (ticks 16) 3 = Inl e)"
  using followPath_invalid[of "Some \<lparr>points = 0\<rparr>" "[[\<lparr>px = Num 0, py = Num 0\<rparr>]]" True
      Forward "Num 1000" True False False "Num 0" "ticks 16" 3]
  by simp

section \<open>Links\<close>

text \<open>
  C9. The path of the link that \<open>createLink\<close> returns refers to an array of two points: the
  centre \<open>(x + width / 2, y + height / 2)\<close> of the first element, then that of the second.
  For the boxes \<open>(0, 0, 50, 50)\<close> and \<open>(100, 100, 50, 50)\<close> the array is
  \<open>[(25, 25), (125, 125)]\<close>.
\<close>

theorem createLink_centres:
  "fst (createLink h e1 e2 ls sa ea) ! points (path (snd (createLink h e1 e2 ls sa ea))) =
     [\<lparr>px = js_add (elem_x e1) (js_div (width e1) (Num 2)),
       py = js_add (elem_y e1) (js_div (height e1) (Num 2))\<rparr>,
      \<lparr>px = js_add (elem_x e2) (js_div (width e2) (Num 2)),
       py = js_add (elem_y e2) (js_div (height e2) (Num 2))\<rparr>] \<and>
   fst (createLink h \<lparr>elem_x = Num 0, elem_y = Num 0, width = Num 50, height = Num 50\<rparr>
          \<lparr>elem_x = Num 100, elem_y = Num 100, width = Num 50, height = Num 50\<rparr> ls sa ea) !
     points (path (snd (createLink h
          \<lparr>elem_x = Num 0, elem_y = Num 0, width = Num 50, height = Num 50\<rparr>
          \<lparr>elem_x = Num 100, elem_y = Num 100, width = Num 50, height = Num 50\<rparr> ls sa ea))) =
     [\<lparr>px = Num 25, py = Num 25\<rparr>, \<lparr>px = Num 125, py = Num 125\<rparr>]"
proof -
  have a: "js_add (Num 0) (js_div (Num 50) (Num 2)) = Num 25" by code_simp
  have b: "js_add (Num 100) (js_div (Num 50) (Num 2)) = Num 125" by code_simp
  show ?thesis
    by (simp add: createLink_def new_Link_def Let_def a b del: js_add.simps js_div.simps)
qed

section \<open>The player works on its own array\<close>

lemma executeAnimation_heap:
  "executeAnimation d cc loop h now fo = (calls, h', t) \<Longrightarrow>
     h' = h \<and> (\<forall>fo' wm. t = Pending (fo', wm) \<longrightarrow> fo' = fo)"
  by (auto simp: executeAnimation_def split: outcome.splits if_splits)

lemma traversal_complete_heap:
  assumes "traversal_complete d cc loop yoyo h now fo = (calls, h', t)"
  shows "length h' = length h \<and> (\<forall>a. a \<noteq> pathPoints fo \<longrightarrow> h' ! a = h ! a) \<and>
         (\<forall>fo' wm. t = Pending (fo', wm) \<longrightarrow> pathPoints fo' = pathPoints fo)"
  using assms
  by (auto simp: traversal_complete_def Let_def split: if_splits dest!: executeAnimation_heap)

lemma follow_frame_private:
  assumes "private_copy h0 st"
  shows "private_copy h0 (snd (follow_frame upd d cc loop yoyo st f))"
proof (cases st)
  case (Pair h t)
  show ?thesis
  proof (cases t)
    case (Pending x)
    obtain fo wm where x: "x = (fo, wm)" by (cases x)
    let ?step = "Some (\<lambda>x y i s. upd x y i s (loopCount fo) (currentDirection fo))"
    obtain calls out where sf: "segment_frame ?step None h wm f = (calls, out)"
      by (cases "segment_frame ?step None h wm f")
    show ?thesis
    proof (cases out)
      case (Again wm')
      with assms Pair Pending x sf show ?thesis by (simp add: private_copy_def)
    next
      case Finished
      obtain calls' h' t' where
        tc: "traversal_complete d cc loop yoyo h (performance_now f) fo = (calls', h', t')"
        by (cases "traversal_complete d cc loop yoyo h (performance_now f) fo")
      from traversal_complete_heap[OF tc] assms Pair Pending x
      have "private_copy h0 (h', t')" by (auto simp: private_copy_def)
      with Pair Pending x sf Finished tc show ?thesis by simp
    qed
  qed (use assms Pair in \<open>simp_all add: private_copy_def\<close>)
qed

lemma followPath_private:
  assumes "followPath h pa upd dir d cc loop yoyo now = Inr (calls, st)"
  shows "private_copy h st"
proof -
  from assms obtain arr where
    ex: "executeAnimation d cc loop (h @ [arr]) now
           \<lparr>loopCount = 0, pathPoints = length h, currentDirection = dir\<rparr> = (calls, st)"
    by (auto simp: followPath_def split: option.splits if_splits)
  obtain h' t where st: "st = (h', t)" by (cases st)
  from executeAnimation_heap[OF ex[unfolded st]] show ?thesis
    by (auto simp: private_copy_def st nth_append)
qed

text \<open>
  C10. \<open>followPath\<close> does not write the array of the path it is given: after any number of
  frames, whatever the direction and the loop and yoyo flags, that array holds the points it
  held at the call, in the same order. The reversals act on the copy.
\<close>

theorem followPath_leaves_path:
  assumes "points p < length h"
    and "follow_run h (Some p) has_update dir d has_complete loop yoyo now sched n =
           Inr (tr, h', t)"
  shows "h' ! points p = h ! points p"
proof -
  let ?upd = "if has_update then Some (\<lambda>x y i s c dir. [Update x y i s c dir]) else None"
  let ?cc = "if has_complete then Some (\<lambda>c. [FollowComplete c]) else None"
  let ?step = "follow_frame (\<lambda>x y i s c dir. [Update x y i s c dir]) d ?cc loop yoyo"
  from assms(2) obtain init where
    fp: "followPath h (Some p) ?upd dir d ?cc loop yoyo now = Inr init"
    and run: "host ?step init sched n = (tr, h', t)"
    by (auto simp: follow_run_def split: sum.splits)
  obtain calls st where init: "init = (calls, st)" by (cases init)
  have "private_copy h (snd init)"
    using followPath_private[OF fp[unfolded init]] init by simp
  then have "private_copy h (snd (host ?step init sched n))"
    by (rule host_invariant) (rule follow_frame_private)
  with run assms(1) show ?thesis by (simp add: private_copy_def)
qed

theorem followPath_leaves_path_witness:
  "points \<lparr>points = 0\<rparr> < length [[\<lparr>px = Num 0, py = Num 0\<rparr>, \<lparr>px = Num 100, py = Num 0\<rparr>]] \<and>
   (\<exists>tr h' t.
      follow_run [[\<lparr>px = Num 0, py = Num 0\<rparr>, \<lparr>px = Num 100, py = Num 0\<rparr>]]
        (Some \<lparr>points = 0\<rparr>) True Backward (Num 1000) True True True (Num 0) (ticks 500) 3 =
        Inr (tr, h', t) \<and>
      h' ! points \<lparr>points = 0\<rparr> = [\<lparr>px = Num 0, py = Num 0\<rparr>, \<lparr>px = Num 100, py = Num 0\<rparr>])"
proof -
  let ?h = "[[\<lparr>px = Num 0, py = Num 0\<rparr>, \<lparr>px = Num 100, py = Num 0\<rparr>]]"
  have run: "follow_run ?h (Some \<lparr>points = 0\<rparr>) True Backward (Num 1000) True True True (Num 0)
      (ticks 500) 3 =
    Inr ([Update (Num 50) (Num 0) 0 0 0 Backward, Update (Num 0) (Num 0) 1 0 0 Backward,
          Update (Num 50) (Num 0) 0 0 1 Forward],
         [[\<lparr>px = Num 0, py = Num 0\<rparr>, \<lparr>px = Num 100, py = Num 0\<rparr>],
          [\<lparr>px = Num 0, py = Num 0\<rparr>, \<lparr>px = Num 100, py = Num 0\<rparr>]],
         Pending
          (\<lparr>loopCount = 1, pathPoints = 1, currentDirection = Forward\<rparr>,
           \<lparr>walk_points = 1, segmentDuration = Num 1000, totalSegments = 1,
              currentSegment = 0\<rparr>,
           \<lparr>startPoint = \<lparr>px = Num 0, py = Num 0\<rparr>,
              endPoint = \<lparr>px = Num 100, py = Num 0\<rparr>, duration = Num 1000,
              startTime = Num 1000, stepIndex = 1\<rparr>))"
    by code_simp
  have lt: "points \<lparr>points = 0\<rparr> < length ?h" by simp
  from followPath_leaves_path[OF lt run] lt run show ?thesis by simp
qed

end
